theory Spec2Isabelle
  imports
    Complex_Main
    "HOL-Library.AList"
    "HOL-Library.Word"
    "HOL-Library.Multiset"
    "HOL-Library.Char_ord"
    "HOL-Library.List_Lexorder"
    "HOL-Library.Product_Lexorder"
begin

section \<open>Python values and dictionaries\<close>

text \<open>
  The endpoint methods work on parsed JSON: dictionaries, lists, strings, integers,
  floating point numbers, booleans and \<open>None\<close>.  A dictionary is an association list
  read with \<open>map_of\<close> (keys are unique in a Python dict).  A floating point number
  is the rational number that it denotes: the code only tests and compares numbers, and
  Python compares integers and floats by their exact values.  (The values \<open>nan\<close> and
  \<open>inf\<close>, which standard JSON cannot express, have no counterpart.)
\<close>

datatype json =
    JNull
  | JBool bool
  | JInt int
  | JFloat rat
  | JStr string
  | JList "json list"
  | JObj "(string \<times> json) list"

type_synonym dict = "(string \<times> json) list"

text \<open>The exceptions that the modelled code can raise.\<close>

datatype error =
    ValueError string
  | TypeError
  | KeyError string
  | AttributeError
  | ClientError string

text \<open>Python truthiness, as used by \<open>if x\<close>, \<open>x and y\<close> and \<open>not x\<close>.\<close>

fun truthy :: "json \<Rightarrow> bool" where
  "truthy JNull = False"
| "truthy (JBool b) = b"
| "truthy (JInt i) = (i \<noteq> 0)"
| "truthy (JFloat q) = (q \<noteq> 0)"
| "truthy (JStr s) = (s \<noteq> [])"
| "truthy (JList xs) = (xs \<noteq> [])"
| "truthy (JObj kvs) = (kvs \<noteq> [])"

text \<open>\<open>d.get(k)\<close> and \<open>d.get(k, default)\<close>.\<close>

definition dget :: "dict \<Rightarrow> string \<Rightarrow> json" where
  "dget d k = (case map_of d k of None \<Rightarrow> JNull | Some v \<Rightarrow> v)"

definition dget_default :: "dict \<Rightarrow> string \<Rightarrow> json \<Rightarrow> json" where
  "dget_default d k dflt = (case map_of d k of None \<Rightarrow> dflt | Some v \<Rightarrow> v)"

text \<open>\<open>d.update(other)\<close>: the keys of \<open>other\<close> are set in \<open>d\<close>, in order.\<close>

definition dict_update :: "dict \<Rightarrow> dict \<Rightarrow> dict" where
  "dict_update d other = fold (\<lambda>(k, v) acc. AList.update k v acc) other d"

text \<open>
  Iterating a value, as \<open>list.extend(x)\<close> and \<open>for m in x\<close> do: a list yields its
  elements, a string its characters (as one-character strings), a dictionary its keys;
  \<open>None\<close>, booleans and numbers are not iterable.
\<close>

fun py_iter :: "json \<Rightarrow> error + json list" where
  "py_iter (JList xs) = Inr xs"
| "py_iter (JStr s) = Inr (map (\<lambda>c. JStr [c]) s)"
| "py_iter (JObj kvs) = Inr (map (\<lambda>(k, v). JStr k) kvs)"
| "py_iter JNull = Inl TypeError"
| "py_iter (JBool b) = Inl TypeError"
| "py_iter (JInt i) = Inl TypeError"
| "py_iter (JFloat q) = Inl TypeError"

text \<open>\<open>x[k]\<close> for a string key \<open>k\<close>.\<close>

fun subscript :: "json \<Rightarrow> string \<Rightarrow> error + json" where
  "subscript (JObj kvs) k = (case map_of kvs k of None \<Rightarrow> Inl (KeyError k) | Some v \<Rightarrow> Inr v)"
| "subscript v k = Inl TypeError"

text \<open>
  A list comprehension \<open>[f(x) for x in xs]\<close> whose body may raise: the elements are
  visited in order and the first exception ends the evaluation.
\<close>

fun map_raise :: "('a \<Rightarrow> error + 'b) \<Rightarrow> 'a list \<Rightarrow> error + 'b list" where
  "map_raise f [] = Inr []"
| "map_raise f (x # xs) =
     (case f x of
        Inl e \<Rightarrow> Inl e
      | Inr y \<Rightarrow> (case map_raise f xs of Inl e \<Rightarrow> Inl e | Inr ys \<Rightarrow> Inr (y # ys)))"

section \<open>The client, as the endpoint mixins see it\<close>

text \<open>
  A request handed to \<open>_call_api\<close>: the endpoint with its keyword arguments
  \<open>params\<close>, \<open>query\<close> and \<open>unsigned\<close>.
\<close>

record request =
  endpoint :: string
  params :: "dict option"
  query :: "dict option"
  unsigned :: bool

text \<open>
  The attributes of \<open>self\<close> that the endpoint methods read.  \<open>_call_api\<close> itself
  lives in the client class; it is a parameter \<open>call\<close> of every method below, of type
  \<open>request \<Rightarrow> 's \<Rightarrow> (error + dict) \<times> 's\<close>: it takes the session state \<open>'s\<close>
  (cookies, the requests sent so far), returns the parsed response or raises, and leaves
  a new session state.
\<close>

record client =
  uuid :: string
  csrftoken :: string
  phone_id :: string
  timezone_offset :: int
  authenticated_params :: dict
  auto_patch :: bool
  drop_incompat_keys :: bool

type_synonym 's call_api = "request \<Rightarrow> 's \<Rightarrow> (error + dict) \<times> 's"

section \<open>Pagination helpers\<close>

text \<open>
  The loop shared by \<open>feed_timeline\<close> (flag \<open>more_available\<close>, items
  \<open>feed_items\<close>) and \<open>media_n_comments\<close> (flag \<open>has_more_comments\<close>, items
  \<open>comments\<close>):
  \<^verbatim>\<open>
  while res.get(FLAG) and res.get('next_max_id') and len(media) < n:
      params.update({'max_id': res.get('next_max_id')})
      res = self._call_api(...)
      media.extend(res.get(ITEMS, []))
      if not res.get('next_max_id') or not res.get(ITEMS):
          break
  \<close>
  The loop is entered with the first response \<open>res\<close> and its items already in
  \<open>media\<close>.  Nothing is assumed about its termination: a run that never leaves the
  loop is the value \<open>None\<close>.  The result is the last response, the accumulated list and
  the session state, or the exception that ended the run.
\<close>

partial_function (option) page_loop ::
  "'s call_api \<Rightarrow> (dict \<Rightarrow> request) \<Rightarrow> string \<Rightarrow> string \<Rightarrow> int \<Rightarrow>
     dict \<Rightarrow> dict \<Rightarrow> json list \<Rightarrow> 's \<Rightarrow> ((error + dict \<times> json list) \<times> 's) option"
where
  "page_loop call mk flag items n ps res media st =
     (if truthy (dget res flag) \<and> truthy (dget res ''next_max_id'') \<and> int (length media) < n
      then
        (let ps' = dict_update ps [(''max_id'', dget res ''next_max_id'')] in
         case call (mk ps') st of
           (Inl e, st') \<Rightarrow> Some (Inl e, st')
         | (Inr res', st') \<Rightarrow>
             (case py_iter (dget_default res' items (JList [])) of
                Inl e \<Rightarrow> Some (Inl e, st')
              | Inr xs \<Rightarrow>
                  if \<not> truthy (dget res' ''next_max_id'') \<or> \<not> truthy (dget res' items)
                  then Some (Inr (res', media @ xs), st')
                  else page_loop call mk flag items n ps' res' (media @ xs) st'))
      else Some (Inr (res, media), st))"

text \<open>
  Both helpers start in the same way, which \<open>fetch_pages\<close> gathers: the first
  request, \<open>media.extend(res.get(ITEMS, []))\<close>, then the loop.
\<close>

definition fetch_pages ::
  "'s call_api \<Rightarrow> (dict \<Rightarrow> request) \<Rightarrow> string \<Rightarrow> string \<Rightarrow> int \<Rightarrow>
     dict \<Rightarrow> 's \<Rightarrow> ((error + dict \<times> json list) \<times> 's) option"
where
  "fetch_pages call mk flag items n ps st =
     (case call (mk ps) st of
        (Inl e, st1) \<Rightarrow> Some (Inl e, st1)
      | (Inr res, st1) \<Rightarrow>
          (case py_iter (dget_default res items (JList [])) of
             Inl e \<Rightarrow> Some (Inl e, st1)
           | Inr xs \<Rightarrow> page_loop call mk flag items n ps res xs st1))"

text \<open>
  \<open>ClientCompatPatch.media\<close> and \<open>ClientCompatPatch.comment\<close> are defined in another
  module; the endpoint methods take them as a parameter \<open>patch\<close>: given the object and
  \<open>drop_incompat_keys\<close> it raises or gives the contents of the object after it has been
  patched in place.
\<close>

type_synonym patcher = "json \<Rightarrow> bool \<Rightarrow> error + json"

text \<open>
  One element of the comprehension at the end of \<open>feed_timeline\<close>:
  \<^verbatim>\<open>ClientCompatPatch.media(m['media_or_ad'], ...) if m.get('media_or_ad') else m\<close>.
  Only a dictionary has \<open>get\<close>.  The object under \<open>media_or_ad\<close> is patched in place,
  so \<open>m\<close> holds the patched object afterwards.
\<close>

fun patch_feed_item :: "patcher \<Rightarrow> bool \<Rightarrow> json \<Rightarrow> error + json" where
  "patch_feed_item patch dropk (JObj m) =
     (if truthy (dget m ''media_or_ad'')
      then (case patch (dget m ''media_or_ad'') dropk of
              Inl e \<Rightarrow> Inl e
            | Inr v \<Rightarrow> Inr (JObj (AList.update ''media_or_ad'' v m)))
      else Inr (JObj m))"
| "patch_feed_item patch dropk v = Inl AttributeError"

text \<open>
  \<open>feed_timeline(self, n=50, **kwargs)\<close>.  The final comprehension walks the items of
  the last response only.  Those dictionaries are the very objects that \<open>extend\<close> put at
  the end of \<open>media\<close>, so after patching them in place the returned list ends with the
  patched items: the model replaces the tail of \<open>media\<close> that the last response
  contributed.
\<close>

definition feed_timeline ::
  "patcher \<Rightarrow> 's call_api \<Rightarrow> client \<Rightarrow> int \<Rightarrow> dict \<Rightarrow> 's \<Rightarrow> ((error + json list) \<times> 's) option"
where
  "feed_timeline patch call self n kwargs st =
     (let ps = dict_update
            [(''_uuid'', JStr (uuid self)),
             (''_csrftoken'', JStr (csrftoken self)),
             (''is_prefetch'', JStr ''0''),
             (''is_pull_to_refresh'', JStr ''0''),
             (''phone_id'', JStr (phone_id self)),
             (''timezone_offset'', JInt (timezone_offset self))] kwargs;
          mk = (\<lambda>p. \<lparr>endpoint = ''feed/timeline/'', params = Some p, query = None,
                       unsigned = True\<rparr>)
      in
      case fetch_pages call mk ''more_available'' ''feed_items'' n ps st of
        None \<Rightarrow> None
      | Some (Inl e, st2) \<Rightarrow> Some (Inl e, st2)
      | Some (Inr (res, media), st2) \<Rightarrow>
          if auto_patch self
          then
            (case py_iter (dget_default res ''feed_items'' (JList [])) of
               Inl e \<Rightarrow> Some (Inl e, st2)
             | Inr last_items \<Rightarrow>
                 (case map_raise (patch_feed_item patch (drop_incompat_keys self)) last_items of
                    Inl e \<Rightarrow> Some (Inl e, st2)
                  | Inr patched \<Rightarrow>
                      Some (Inr (take (length media - length last_items) media @ patched), st2)))
          else Some (Inr media, st2))"

text \<open>
  Python's \<open>==\<close> and \<open><\<close> on parsed JSON.  Numbers are compared by value,
  whatever their type (\<open>True\<close> and \<open>False\<close> are the numbers 1 and 0); strings are
  equal when they are the same and ordered character by character; lists are equal
  element by element and ordered by the first pair of elements that are not equal, a
  proper prefix coming first; dictionaries are equal when they hold the same keys with
  equal values, in any order.  Values of different kinds are never equal.  \<open><\<close>
  raises a TypeError for \<open>None\<close>, for dictionaries and for two values of different
  kinds.
\<close>

fun num_of :: "json \<Rightarrow> rat option" where
  "num_of (JInt i) = Some (of_int i)"
| "num_of (JBool b) = Some (if b then 1 else 0)"
| "num_of (JFloat q) = Some q"
| "num_of v = None"

fun py_eq :: "json \<Rightarrow> json \<Rightarrow> bool" where
  "py_eq (JStr s) (JStr t) = (s = t)"
| "py_eq JNull JNull = True"
| "py_eq (JList xs) (JList ys) = list_all2 py_eq xs ys"
| "py_eq (JObj a) (JObj b) =
     (length a = length b \<and>
      list_all (\<lambda>(k, v). case map_of b k of None \<Rightarrow> False | Some w \<Rightarrow> py_eq v w) a)"
| "py_eq x y = (case (num_of x, num_of y) of (Some p, Some q) \<Rightarrow> p = q | _ \<Rightarrow> False)"

fun py_lt :: "json \<Rightarrow> json \<Rightarrow> error + bool"
  and lt_list :: "json list \<Rightarrow> json list \<Rightarrow> error + bool"
where
  "py_lt (JStr s) (JStr t) = Inr (s < t)"
| "py_lt (JList xs) (JList ys) = lt_list xs ys"
| "py_lt x y = (case (num_of x, num_of y) of (Some p, Some q) \<Rightarrow> Inr (p < q) | _ \<Rightarrow> Inl TypeError)"
| "lt_list [] [] = Inr False"
| "lt_list [] (y # ys) = Inr True"
| "lt_list (x # xs) [] = Inr False"
| "lt_list (x # xs) (y # ys) = (if py_eq x y then lt_list xs ys else py_lt x y)"

text \<open>Two keys that can be compared, in both directions, without a TypeError.\<close>

definition comparable :: "json \<Rightarrow> json \<Rightarrow> bool" where
  "comparable x y = (case (py_lt x y, py_lt y x) of (Inr a, Inr b) \<Rightarrow> True | _ \<Rightarrow> False)"

fun all_pairs :: "('a \<Rightarrow> 'a \<Rightarrow> bool) \<Rightarrow> 'a list \<Rightarrow> bool" where
  "all_pairs P [] = True"
| "all_pairs P (x # xs) = (list_all (P x) xs \<and> all_pairs P xs)"

text \<open>
  A stable sort of the elements \<open>xs\<close> by their keys \<open>ks\<close>, with the comparison
  \<open>lt\<close>: each pair (key, element) is inserted in front of the first pair already
  placed whose key is not smaller than its own, so that elements with equal keys keep
  their order.  With \<open>reverse=True\<close> the list is reversed, sorted and reversed again,
  as \<open>list.sort\<close> does: the order is descending and equal keys still keep their
  original order.
\<close>

fun insort_lt :: "('k \<Rightarrow> 'k \<Rightarrow> bool) \<Rightarrow> 'k \<times> 'a \<Rightarrow> ('k \<times> 'a) list \<Rightarrow> ('k \<times> 'a) list" where
  "insort_lt lt p [] = [p]"
| "insort_lt lt p (q # qs) = (if lt (fst q) (fst p) then q # insort_lt lt p qs else p # q # qs)"

definition sort_lt :: "('k \<Rightarrow> 'k \<Rightarrow> bool) \<Rightarrow> ('k \<times> 'a) list \<Rightarrow> ('k \<times> 'a) list" where
  "sort_lt lt ps = foldr (insort_lt lt) ps []"

definition stable_sort :: "('k \<Rightarrow> 'k \<Rightarrow> bool) \<Rightarrow> 'k list \<Rightarrow> 'a list \<Rightarrow> bool \<Rightarrow> 'a list" where
  "stable_sort lt ks xs reverse =
     (if reverse then rev (map snd (sort_lt lt (rev (zip ks xs))))
      else map snd (sort_lt lt (zip ks xs)))"

text \<open>
  \<open>sorted(xs, key=..., reverse=...)\<close>.  The key function is applied to every element
  first, in order, and an exception that it raises is the outcome.  A list of fewer than
  two elements is never compared.  Otherwise the keys are compared with \<open><\<close>: when
  every two of them can be compared the result is the stable sort, and when two of them
  cannot the comparison raises a TypeError.
\<close>

definition py_sorted :: "(json \<Rightarrow> error + json) \<Rightarrow> json list \<Rightarrow> bool \<Rightarrow> error + json list" where
  "py_sorted key xs reverse =
     (case map_raise key xs of
        Inl e \<Rightarrow> Inl e
      | Inr ks \<Rightarrow>
          if length xs < 2 then Inr xs
          else if all_pairs comparable ks
          then Inr (stable_sort (\<lambda>a b. py_lt a b = Inr True) ks xs reverse)
          else Inl TypeError)"

text \<open>
  \<open>media_n_comments(self, media_id, n=150, reverse=False, **kwargs)\<close>.  Every
  accumulated comment is patched when \<open>auto_patch\<close> is set; the result is sorted by
  \<open>k['created_time']\<close>.
\<close>

definition media_n_comments ::
  "patcher \<Rightarrow> 's call_api \<Rightarrow> client \<Rightarrow> string \<Rightarrow> int \<Rightarrow> bool \<Rightarrow> dict \<Rightarrow> 's \<Rightarrow>
     ((error + json list) \<times> 's) option"
where
  "media_n_comments patch call self media_id n reverse kwargs st =
     (let mk = (\<lambda>q. \<lparr>endpoint = ''media/'' @ media_id @ ''/comments/'', params = None,
                       query = Some q, unsigned = False\<rparr>)
      in
      case fetch_pages call mk ''has_more_comments'' ''comments'' n kwargs st of
        None \<Rightarrow> None
      | Some (Inl e, st2) \<Rightarrow> Some (Inl e, st2)
      | Some (Inr (results, comments), st2) \<Rightarrow>
          (case (if auto_patch self
                 then map_raise (\<lambda>c. patch c (drop_incompat_keys self)) comments
                 else Inr comments) of
             Inl e \<Rightarrow> Some (Inl e, st2)
           | Inr comments' \<Rightarrow>
               (case py_sorted (\<lambda>k. subscript k ''created_time'') comments' reverse of
                  Inl e \<Rightarrow> Some (Inl e, st2)
                | Inr out \<Rightarrow> Some (Inr out, st2))))"

text \<open>
  A server that answers the successive requests of one call with the pages of a given
  finite sequence, whatever the request says; the session state counts the requests
  made.  A request beyond the last page fails, as a network error would.
\<close>

definition replay :: "dict list \<Rightarrow> nat call_api" where
  "replay pages req i =
     (if i < length pages then (Inr (pages ! i), Suc i)
      else (Inl (ClientError ''no response''), Suc i))"

text \<open>
  The vocabulary of the statements about a page sequence \<open>pages\<close>: the items of a
  page, the items of its first \<open>k\<close> pages in fetch order, and the two tests of the loop
  on page \<open>j\<close>.  \<open>wants_more\<close> is the loop condition once page \<open>j\<close> has been
  appended; \<open>bails\<close> is the test before \<open>break\<close>, which only pages fetched inside
  the loop (every page but the first) go through.  After page \<open>j\<close> a further page is
  requested exactly when \<open>continues\<close> holds.
\<close>

definition page_items :: "string \<Rightarrow> dict \<Rightarrow> json list" where
  "page_items items p =
     (case py_iter (dget_default p items (JList [])) of Inl e \<Rightarrow> [] | Inr xs \<Rightarrow> xs)"


definition fetched :: "string \<Rightarrow> dict list \<Rightarrow> nat \<Rightarrow> json list" where
  "fetched items pages k = concat (map (page_items items) (take k pages))"

definition wants_more :: "string \<Rightarrow> string \<Rightarrow> int \<Rightarrow> dict list \<Rightarrow> nat \<Rightarrow> bool" where
  "wants_more flag items n pages j =
     (truthy (dget (pages ! j) flag) \<and> truthy (dget (pages ! j) ''next_max_id'') \<and>
      int (length (fetched items pages (Suc j))) < n)"

definition bails :: "string \<Rightarrow> dict list \<Rightarrow> nat \<Rightarrow> bool" where
  "bails items pages j =
     (\<not> truthy (dget (pages ! j) ''next_max_id'') \<or> \<not> truthy (dget (pages ! j) items))"

definition continues :: "string \<Rightarrow> string \<Rightarrow> int \<Rightarrow> dict list \<Rightarrow> nat \<Rightarrow> bool" where
  "continues flag items n pages j =
     (wants_more flag items n pages j \<and> (j = 0 \<or> \<not> bails items pages j))"

text \<open>A small page sequence and request builder, used to instantiate the statements.\<close>

definition ex_item :: "int \<Rightarrow> json" where
  "ex_item i = JObj [(''media_or_ad'', JObj [(''pk'', JInt i)])]"


definition ex_mk :: "dict \<Rightarrow> request" where
  "ex_mk p = \<lparr>endpoint = ''feed/timeline/'', params = Some p, query = None, unsigned = True\<rparr>"

definition ex_self :: client where
  "ex_self = \<lparr>uuid = ''u'', csrftoken = ''t'', phone_id = ''p'', timezone_offset = 0,
     authenticated_params = [(''_uid'', JStr ''1'')], auto_patch = False,
     drop_incompat_keys = False\<rparr>"

definition ex_patch :: patcher where
  "ex_patch v dropk =
     (case v of JObj m \<Rightarrow> Inr (JObj (AList.update ''id'' (JStr ''x'') m)) | _ \<Rightarrow> Inl AttributeError)"


definition ex_pages2 :: "dict list" where
  "ex_pages2 =
     [[(''feed_items'', JList [ex_item 1]), (''more_available'', JBool True),
       (''next_max_id'', JStr ''a'')],
      [(''feed_items'', JList [ex_item 3])]]"







text \<open>
  A sort key written as a sequence of tokens (kind, number, string), sequences being
  compared in dictionary order.  A list is its elements between an opening token and a
  closing token that is smaller than every other token.  On keys that \<open><\<close> can
  compare, the order of the token sequences is the order of the keys.
\<close>

type_synonym token = "nat \<times> rat \<times> string"





section \<open>Posting a comment\<close>

text \<open>
  The comment text is a string of characters with code points below 128.  On these,
  \<open>str.upper\<close> changes the letters \<open>a\<close> to \<open>z\<close> only, \<open>[a-z]\<close> under
  \<open>re.IGNORECASE\<close> is the 52 letters, \<open>\w\<close> is letters, digits and the
  underscore, and \<open>\s\<close> is the code points 9 to 13, 28 to 31 and 32.
\<close>

definition is_lower :: "char \<Rightarrow> bool" where
  "is_lower c = (97 \<le> (of_char c :: nat) \<and> (of_char c :: nat) \<le> 122)"

definition is_upper :: "char \<Rightarrow> bool" where
  "is_upper c = (65 \<le> (of_char c :: nat) \<and> (of_char c :: nat) \<le> 90)"

definition is_letter :: "char \<Rightarrow> bool" where
  "is_letter c = (is_lower c \<or> is_upper c)"

definition is_digit :: "char \<Rightarrow> bool" where
  "is_digit c = (48 \<le> (of_char c :: nat) \<and> (of_char c :: nat) \<le> 57)"

definition is_word :: "char \<Rightarrow> bool" where
  "is_word c = (is_letter c \<or> is_digit c \<or> c = CHR ''_'')"

definition is_space :: "char \<Rightarrow> bool" where
  "is_space c = ((of_char c :: nat) \<in> {9, 10, 11, 12, 13, 28, 29, 30, 31, 32})"

definition upper_char :: "char \<Rightarrow> char" where
  "upper_char c = (if is_lower c then char_of ((of_char c :: nat) - 32) else c)"

definition upper :: "string \<Rightarrow> string" where
  "upper s = map upper_char s"

text \<open>
  The regular expressions of \<open>post_comment\<close> are sequences of four kinds of items: a
  literal character, an optional character (\<open>s?\<close>), a greedy run of one or more
  characters of a class (\<open>[a-z]+\<close>, \<open>[^#]+\<close>, \<open>\S+\<close>) and the word boundary
  \<open>\b\<close>.  \<open>rx_match r s i\<close> is the end of the match of \<open>r\<close> that starts at
  position \<open>i\<close> of \<open>s\<close>, found as the \<open>re\<close> module finds it: a run takes as many
  characters as it can and gives them back one at a time (\<open>rx_back\<close>) while the rest
  of the expression does not match.
\<close>

datatype rx =
    Chr char
  | Opt char
  | Plus "char \<Rightarrow> bool"
  | Boundary

definition word_at :: "string \<Rightarrow> nat \<Rightarrow> bool" where
  "word_at s i = (i < length s \<and> is_word (s ! i))"

definition at_boundary :: "string \<Rightarrow> nat \<Rightarrow> bool" where
  "at_boundary s i = ((0 < i \<and> word_at s (i - 1)) \<noteq> word_at s i)"

fun rx_match :: "rx list \<Rightarrow> string \<Rightarrow> nat \<Rightarrow> nat option"
  and rx_back :: "rx list \<Rightarrow> string \<Rightarrow> nat \<Rightarrow> nat \<Rightarrow> nat option"
where
  "rx_match [] s i = Some i"
| "rx_match (Chr c # r) s i =
     (if i < length s \<and> s ! i = c then rx_match r s (Suc i) else None)"
| "rx_match (Opt c # r) s i =
     (case (if i < length s \<and> s ! i = c then rx_match r s (Suc i) else None) of
        Some e \<Rightarrow> Some e
      | None \<Rightarrow> rx_match r s i)"
| "rx_match (Plus p # r) s i = rx_back r s i (length (takeWhile p (drop i s)))"
| "rx_match (Boundary # r) s i = (if at_boundary s i then rx_match r s i else None)"
| "rx_back r s i 0 = None"
| "rx_back r s i (Suc k) =
     (case rx_match r s (i + Suc k) of Some e \<Rightarrow> Some e | None \<Rightarrow> rx_back r s i k)"

text \<open>
  \<open>re.search\<close> tries every start position; \<open>len(re.findall(...))\<close> counts the
  matches found from left to right, each search starting where the previous match ended
  (none of the expressions below matches the empty string).
\<close>

definition re_search :: "rx list \<Rightarrow> string \<Rightarrow> bool" where
  "re_search r s = (\<exists>i \<in> set [0..<Suc (length s)]. rx_match r s i \<noteq> None)"

function findall_count :: "rx list \<Rightarrow> string \<Rightarrow> nat \<Rightarrow> nat" where
  "findall_count r s pos =
     (if length s < pos then 0
      else (case rx_match r s pos of
              None \<Rightarrow> findall_count r s (Suc pos)
            | Some e \<Rightarrow> Suc (findall_count r s (if pos < e then e else Suc pos))))"
  by pat_completeness auto
termination
  by (relation "measure (\<lambda>(r, s, pos). Suc (length s) - pos)") auto

text \<open>
  \<open>[a-z]+\<close> (with \<open>re.IGNORECASE\<close>), \<open>#[^#]+\b\<close> and
  \<open>\bhttps?://\S+\.\S+\<close>.
\<close>

definition re_letters :: "rx list" where
  "re_letters = [Plus is_letter]"

definition re_hashtag :: "rx list" where
  "re_hashtag = [Chr CHR ''#'', Plus (\<lambda>c. c \<noteq> CHR ''#''), Boundary]"

definition re_url :: "rx list" where
  "re_url = [Boundary, Chr CHR ''h'', Chr CHR ''t'', Chr CHR ''t'', Chr CHR ''p'', Opt CHR ''s'',
             Chr CHR '':'', Chr CHR ''/'', Chr CHR ''/'',
             Plus (\<lambda>c. \<not> is_space c), Chr CHR ''.'', Plus (\<lambda>c. \<not> is_space c)]"



text \<open>
  The four checks that open \<open>post_comment\<close>, in their order: the exception that the
  first failing check raises, or \<open>None\<close> when the text passes all four.
\<close>

definition validate_comment :: "string \<Rightarrow> error option" where
  "validate_comment comment_text =
     (if 300 < length comment_text
      then Some (ValueError ''The total length of the comment cannot exceed 300 characters.'')
      else if re_search re_letters comment_text \<and> comment_text = upper comment_text
      then Some (ValueError ''The comment cannot consist of all capital letters.'')
      else if 4 < findall_count re_hashtag comment_text 0
      then Some (ValueError ''The comment cannot contain more than 4 hashtags.'')
      else if 1 < findall_count re_url comment_text 0
      then Some (ValueError ''The comment cannot contain more than 1 URL.'')
      else None)"

text \<open>
  \<open>post_comment(self, media_id, comment_text)\<close>.  \<open>gen_user_breadcrumb\<close> (module
  \<open>utils\<close>) and \<open>self.generate_uuid\<close> draw on the clock and on randomness; they are
  parameters that read and advance the state.  The response's \<open>comment\<close> is patched
  in place when \<open>auto_patch\<close> is set.
\<close>

definition post_comment ::
  "patcher \<Rightarrow> 's call_api \<Rightarrow> (nat \<Rightarrow> 's \<Rightarrow> string \<times> 's) \<Rightarrow> ('s \<Rightarrow> string \<times> 's) \<Rightarrow>
     client \<Rightarrow> string \<Rightarrow> string \<Rightarrow> 's \<Rightarrow> (error + dict) \<times> 's"
where
  "post_comment patch call gen_user_breadcrumb generate_uuid self media_id comment_text st =
     (case validate_comment comment_text of
        Some e \<Rightarrow> (Inl e, st)
      | None \<Rightarrow>
          (let ep = ''media/'' @ media_id @ ''/comment/'';
               (crumb, st1) = gen_user_breadcrumb (length comment_text) st;
               (token, st2) = generate_uuid st1;
               ps = dict_update
                      [(''comment_text'', JStr comment_text),
                       (''user_breadcrumb'', JStr crumb),
                       (''idempotence_token'', JStr token),
                       (''containermodule'', JStr ''comments_feed_timeline'')]
                      (authenticated_params self)
           in case call \<lparr>endpoint = ep, params = Some ps, query = None, unsigned = False\<rparr> st2 of
                (Inl e, st3) \<Rightarrow> (Inl e, st3)
              | (Inr res, st3) \<Rightarrow>
                  if auto_patch self
                  then (case subscript (JObj res) ''comment'' of
                          Inl e \<Rightarrow> (Inl e, st3)
                        | Inr c \<Rightarrow>
                            (case patch c (drop_incompat_keys self) of
                               Inl e \<Rightarrow> (Inl e, st3)
                             | Inr c' \<Rightarrow> (Inr (AList.update ''comment'' c' res), st3)))
                  else (Inr res, st3)))"

text \<open>
  A server that accepts every request and records it: its state is the list of the
  requests received so far.
\<close>

definition log_call :: "request list call_api" where
  "log_call req sent = (Inr [(''status'', JStr ''ok'')], sent @ [req])"

definition ex_crumb :: "nat \<Rightarrow> request list \<Rightarrow> string \<times> request list" where
  "ex_crumb len sent = (''crumb'', sent)"

definition ex_uuid :: "request list \<Rightarrow> string \<times> request list" where
  "ex_uuid sent = (''0000-0000'', sent)"

section \<open>Saving and restoring the settings\<close>

text \<open>
  The values that the settings hold and \<open>json\<close> can write with the \<open>default\<close> hook
  of the example: \<open>None\<close>, booleans, integers, floats, strings, \<open>bytes\<close>,
  lists and dictionaries with string keys.
\<close>

type_synonym byte = "8 word"

datatype pyval =
    PNone
  | PBool bool
  | PInt int
  | PFloat rat
  | PStr string
  | PBytes "byte list"
  | PList "pyval list"
  | PDict "(string \<times> pyval) list"

text \<open>
  \<open>codecs.encode(b, 'base64')\<close> is \<open>base64.encodebytes\<close>: every 57 bytes give a
  line of 76 characters (\<open>binascii.b2a_base64\<close>, with \<open>=\<close> padding and a newline).
\<close>

definition b64_alphabet :: string where
  "b64_alphabet = ''ABCDEFGHIJKLMNOPQRSTUVWXYZabcdefghijklmnopqrstuvwxyz0123456789+/''"

definition b64_char :: "nat \<Rightarrow> char" where
  "b64_char i = b64_alphabet ! i"

fun index_of :: "'a \<Rightarrow> 'a list \<Rightarrow> nat option" where
  "index_of c [] = None"
| "index_of c (x # xs) =
     (if x = c then Some 0 else (case index_of c xs of None \<Rightarrow> None | Some i \<Rightarrow> Some (Suc i)))"

definition b64_index :: "char \<Rightarrow> nat option" where
  "b64_index c = index_of c b64_alphabet"

fun b2a :: "byte list \<Rightarrow> string" where
  "b2a (a # b # c # rest) =
     [b64_char (unat a div 4),
      b64_char ((unat a mod 4) * 16 + unat b div 16),
      b64_char ((unat b mod 16) * 4 + unat c div 64),
      b64_char (unat c mod 64)] @ b2a rest"
| "b2a [a, b] =
     [b64_char (unat a div 4),
      b64_char ((unat a mod 4) * 16 + unat b div 16),
      b64_char ((unat b mod 16) * 4),
      CHR ''='']"
| "b2a [a] =
     [b64_char (unat a div 4),
      b64_char ((unat a mod 4) * 16),
      CHR ''='', CHR ''='']"
| "b2a [] = []"

definition b2a_base64 :: "byte list \<Rightarrow> string" where
  "b2a_base64 data = b2a data @ [CHR 0x0A]"

fun chunks :: "nat \<Rightarrow> 'a list \<Rightarrow> 'a list list" where
  "chunks n xs = (if n = 0 \<or> xs = [] then [] else take n xs # chunks n (drop n xs))"

definition encodebytes :: "byte list \<Rightarrow> string" where
  "encodebytes s = concat (map b2a_base64 (chunks 57 s))"

text \<open>
  \<open>codecs.decode(s, 'base64')\<close> is \<open>binascii.a2b_base64\<close>: characters outside the
  alphabet are skipped, a complete padding ends the input, and leftover characters are
  an error (a \<open>ValueError\<close>).  The state is the position in the group of four, the
  bits left over and the count of padding characters.
\<close>

fun a2b_loop :: "string \<Rightarrow> nat \<Rightarrow> nat \<Rightarrow> nat \<Rightarrow> byte list \<Rightarrow> error + byte list" where
  "a2b_loop [] quad_pos leftchar pads out =
     (if quad_pos = 0 then Inr out
      else if quad_pos = 1 then Inl (ValueError ''Invalid base64-encoded string'')
      else Inl (ValueError ''Incorrect padding''))"
| "a2b_loop (c # cs) quad_pos leftchar pads out =
     (if c = CHR ''=''
      then (if 2 \<le> quad_pos \<and> 4 \<le> quad_pos + Suc pads then Inr out
            else a2b_loop cs quad_pos leftchar (if 2 \<le> quad_pos then Suc pads else pads) out)
      else (case b64_index c of
              None \<Rightarrow> a2b_loop cs quad_pos leftchar pads out
            | Some v \<Rightarrow>
                if quad_pos = 0 then a2b_loop cs 1 v 0 out
                else if quad_pos = 1
                then a2b_loop cs 2 (v mod 16) 0 (out @ [of_nat (leftchar * 4 + v div 16)])
                else if quad_pos = 2
                then a2b_loop cs 3 (v mod 4) 0 (out @ [of_nat (leftchar * 16 + v div 4)])
                else a2b_loop cs 0 0 0 (out @ [of_nat (leftchar * 64 + v)])))"

definition decodebytes :: "string \<Rightarrow> error + byte list" where
  "decodebytes s = a2b_loop s 0 0 0 []"




text \<open>
  \<open>to_json\<close> and \<open>from_json\<close> of \<open>examples/savesettings_logincallback.py\<close>.
  \<open>.decode()\<close> and \<open>.encode()\<close> pass between the ASCII bytes of the encoding and the
  string with the same characters; only a string has \<open>encode\<close>.
\<close>

definition to_json :: "pyval \<Rightarrow> error + pyval" where
  "to_json python_object =
     (case python_object of
        PBytes b \<Rightarrow> Inr (PDict [(''__class__'', PStr ''bytes''),
                               (''__value__'', PStr (encodebytes b))])
      | _ \<Rightarrow> Inl TypeError)"

definition from_json :: "(string \<times> pyval) list \<Rightarrow> error + pyval" where
  "from_json json_object =
     (if ''__class__'' \<in> fst ` set json_object \<and>
         map_of json_object ''__class__'' = Some (PStr ''bytes'')
      then (case map_of json_object ''__value__'' of
              None \<Rightarrow> Inl (KeyError ''__value__'')
            | Some (PStr s) \<Rightarrow>
                (case decodebytes s of Inl e \<Rightarrow> Inl e | Inr b \<Rightarrow> Inr (PBytes b))
            | Some _ \<Rightarrow> Inl AttributeError)
      else Inr (PDict json_object))"

text \<open>
  \<open>json.dump(settings, outfile, default=to_json)\<close> followed by
  \<open>json.load(file_data, object_hook=from_json)\<close>, without the text in between: the
  document is the tree that is written and parsed.  \<open>default\<close> is called for a value
  that \<open>json\<close> cannot write (here: \<open>bytes\<close>) and its result is written in its place
  (\<open>dump_plain\<close>: the dictionary that \<open>to_json\<close> returns holds strings only).
  \<open>object_hook\<close> is called on every parsed object, after its members, and its result
  replaces the object.
\<close>

fun collect :: "(error + 'a) list \<Rightarrow> error + 'a list" where
  "collect [] = Inr []"
| "collect (Inl e # rs) = Inl e"
| "collect (Inr x # rs) = (case collect rs of Inl e \<Rightarrow> Inl e | Inr xs \<Rightarrow> Inr (x # xs))"

fun collect_items :: "('k \<times> (error + 'a)) list \<Rightarrow> error + ('k \<times> 'a) list" where
  "collect_items [] = Inr []"
| "collect_items ((k, Inl e) # rs) = Inl e"
| "collect_items ((k, Inr x) # rs) =
     (case collect_items rs of Inl e \<Rightarrow> Inl e | Inr xs \<Rightarrow> Inr ((k, x) # xs))"

primrec dump_plain :: "pyval \<Rightarrow> error + json" where
  "dump_plain PNone = Inr JNull"
| "dump_plain (PBool b) = Inr (JBool b)"
| "dump_plain (PInt i) = Inr (JInt i)"
| "dump_plain (PFloat q) = Inr (JFloat q)"
| "dump_plain (PStr s) = Inr (JStr s)"
| "dump_plain (PBytes b) = Inl TypeError"
| "dump_plain (PList xs) =
     (case collect (map dump_plain xs) of Inl e \<Rightarrow> Inl e | Inr js \<Rightarrow> Inr (JList js))"
| "dump_plain (PDict kvs) =
     (case collect_items (map (map_prod id dump_plain) kvs) of
        Inl e \<Rightarrow> Inl e
      | Inr js \<Rightarrow> Inr (JObj js))"

primrec json_dump :: "pyval \<Rightarrow> error + json" where
  "json_dump PNone = Inr JNull"
| "json_dump (PBool b) = Inr (JBool b)"
| "json_dump (PInt i) = Inr (JInt i)"
| "json_dump (PFloat q) = Inr (JFloat q)"
| "json_dump (PStr s) = Inr (JStr s)"
| "json_dump (PBytes b) =
     (case to_json (PBytes b) of Inl e \<Rightarrow> Inl e | Inr d \<Rightarrow> dump_plain d)"
| "json_dump (PList xs) =
     (case collect (map json_dump xs) of Inl e \<Rightarrow> Inl e | Inr js \<Rightarrow> Inr (JList js))"
| "json_dump (PDict kvs) =
     (case collect_items (map (map_prod id json_dump) kvs) of
        Inl e \<Rightarrow> Inl e
      | Inr js \<Rightarrow> Inr (JObj js))"

primrec json_load :: "json \<Rightarrow> error + pyval" where
  "json_load JNull = Inr PNone"
| "json_load (JBool b) = Inr (PBool b)"
| "json_load (JInt i) = Inr (PInt i)"
| "json_load (JFloat q) = Inr (PFloat q)"
| "json_load (JStr s) = Inr (PStr s)"
| "json_load (JList js) =
     (case collect (map json_load js) of Inl e \<Rightarrow> Inl e | Inr xs \<Rightarrow> Inr (PList xs))"
| "json_load (JObj kvs) =
     (case collect_items (map (map_prod id json_load) kvs) of
        Inl e \<Rightarrow> Inl e
      | Inr d \<Rightarrow> from_json d)"

text \<open>
  A settings value in which no dictionary is tagged \<open>'__class__': 'bytes'\<close> itself:
  the tag is what the encoding of \<open>bytes\<close> uses.
\<close>

primrec plain :: "pyval \<Rightarrow> bool" where
  "plain PNone = True"
| "plain (PBool b) = True"
| "plain (PInt i) = True"
| "plain (PFloat q) = True"
| "plain (PStr s) = True"
| "plain (PBytes b) = True"
| "plain (PList xs) = list_all plain xs"
| "plain (PDict kvs) =
     (map_of kvs ''__class__'' \<noteq> Some (PStr ''bytes'') \<and> list_all (pred_prod (\<lambda>k. True) plain) kvs)"

definition ex_settings :: pyval where
  "ex_settings =
     PDict [(''uuid'', PStr ''2b1a''), (''created_ts'', PInt 1500000000),
            (''cookie'', PBytes [128, 3, 104, 105])]"

section \<open>The user-agent descriptor\<close>

text \<open>
  The fields of a device descriptor and the decimal notation of \<open>%d\<close> and \<open>int()\<close>.
\<close>

record device_fields =
  app_version :: string
  android_version :: nat
  android_release :: string
  dpi :: string
  resolution :: string
  brand :: string
  device :: string
  model :: string
  chipset :: string

definition digit_char :: "nat \<Rightarrow> char" where
  "digit_char d = char_of (48 + d)"

definition digit_val :: "char \<Rightarrow> nat" where
  "digit_val c = of_char c - 48"

function decimal :: "nat \<Rightarrow> string" where
  "decimal n = (if n < 10 then [digit_char n] else decimal (n div 10) @ [digit_char (n mod 10)])"
  by pat_completeness auto
termination
  by (relation "measure id") auto

declare decimal.simps [simp del]

definition nat_of_decimal :: "string \<Rightarrow> nat" where
  "nat_of_decimal s = foldl (\<lambda>acc c. acc * 10 + digit_val c) 0 s"

text \<open>
  Modelled from the spec: \<open>Client.generate_useragent\<close> is defined in the client
  module, which is not among the sources (only its test is).  The spec gives the
  descriptor as
  \<^verbatim>\<open>AppName Version Platform (androidVersion/androidRelease; dpi; resolution; manufacturer; device; model; chipset; locale)\<close>
  and generation as formatting the structured fields into that string; the test fixes
  the application name, the platform and the locale \<open>en_US\<close>.
\<close>

definition generate_useragent :: "device_fields \<Rightarrow> string" where
  "generate_useragent d =
     ''Instagram '' @ app_version d @ '' Android ('' @ decimal (android_version d) @ ''/'' @
     android_release d @ ''; '' @ dpi d @ ''; '' @ resolution d @ ''; '' @ brand d @ ''; '' @
     device d @ ''; '' @ model d @ ''; '' @ chipset d @ ''; en_US)''"

text \<open>
  Reading a descriptor: a fixed prefix, the text up to a separator, and the fields that
  end in \<open>"; "\<close>.
\<close>

definition strip_prefix :: "string \<Rightarrow> string \<Rightarrow> string option" where
  "strip_prefix p s = (if take (length p) s = p then Some (drop (length p) s) else None)"

fun split_at :: "char \<Rightarrow> string \<Rightarrow> (string \<times> string) option" where
  "split_at c [] = None"
| "split_at c (x # xs) =
     (if x = c then Some ([], xs)
      else (case split_at c xs of None \<Rightarrow> None | Some (a, b) \<Rightarrow> Some (x # a, b)))"

definition ua_field :: "string \<Rightarrow> (string \<times> string) option" where
  "ua_field s =
     (case split_at CHR '';'' s of
        None \<Rightarrow> None
      | Some (f, r) \<Rightarrow>
          (case strip_prefix '' '' r of
             None \<Rightarrow> None
           | Some r' \<Rightarrow> if f = [] then None else Some (f, r')))"

fun ua_fields :: "nat \<Rightarrow> string \<Rightarrow> (string list \<times> string) option" where
  "ua_fields 0 s = Some ([], s)"
| "ua_fields (Suc n) s =
     (case ua_field s of
        None \<Rightarrow> None
      | Some (f, r) \<Rightarrow>
          (case ua_fields n r of None \<Rightarrow> None | Some (fs, r') \<Rightarrow> Some (f # fs, r')))"

text \<open>
  Modelled from the spec: \<open>Client.validate_useragent\<close> is defined in the client
  module, which is not among the sources (only its tests are).  The spec asks for
  parsing that extracts the structured fields of the descriptor and rejects a malformed
  android-version segment; the tests expect a \<open>ValueError\<close> for the segment \<open>xx\<close>
  and the number 22 for the segment \<open>22\<close>.  The locale is read and not kept.
\<close>

definition ua_error :: error where
  "ua_error = ValueError ''User-agent specified does not fit format required''"

fun device_of :: "string \<Rightarrow> string \<Rightarrow> string list \<Rightarrow> device_fields option" where
  "device_of appv av [rel, dp, res, br, dev, mo, chip] =
     Some \<lparr>app_version = appv, android_version = nat_of_decimal av,
            android_release = rel, dpi = dp, resolution = res, brand = br,
            device = dev, model = mo, chipset = chip\<rparr>"
| "device_of appv av fs = None"

definition validate_useragent :: "string \<Rightarrow> error + device_fields" where
  "validate_useragent ua =
     (case strip_prefix ''Instagram '' ua of
        None \<Rightarrow> Inl ua_error
      | Some s1 \<Rightarrow>
     (case split_at CHR '' '' s1 of
        None \<Rightarrow> Inl ua_error
      | Some (appv, s2) \<Rightarrow>
     (case strip_prefix ''Android ('' s2 of
        None \<Rightarrow> Inl ua_error
      | Some s3 \<Rightarrow>
     (case split_at CHR ''/'' s3 of
        None \<Rightarrow> Inl ua_error
      | Some (av, s4) \<Rightarrow>
          if appv = [] \<or> av = [] \<or> \<not> list_all is_digit av then Inl ua_error
          else
     (case ua_fields 7 s4 of
        None \<Rightarrow> Inl ua_error
      | Some (fs, s5) \<Rightarrow>
     (case split_at CHR '')'' s5 of
        None \<Rightarrow> Inl ua_error
      | Some (locale, rest) \<Rightarrow>
          if locale = [] then Inl ua_error
          else (case device_of appv av fs of None \<Rightarrow> Inl ua_error | Some d \<Rightarrow> Inr d)))))))"

text \<open>
  Validated device fields: the application version is a non-empty word without a space,
  and no other text field is empty or contains the separator \<open>;\<close>.
\<close>

definition field_ok :: "string \<Rightarrow> bool" where
  "field_ok f = (f \<noteq> [] \<and> CHR '';'' \<notin> set f)"

definition fields_ok :: "device_fields \<Rightarrow> bool" where
  "fields_ok d =
     (app_version d \<noteq> [] \<and> CHR '' '' \<notin> set (app_version d) \<and>
      field_ok (android_release d) \<and> field_ok (dpi d) \<and> field_ok (resolution d) \<and>
      field_ok (brand d) \<and> field_ok (device d) \<and> field_ok (model d) \<and> field_ok (chipset d))"


definition ex_device :: device_fields where
  "ex_device = \<lparr>app_version = ''10.9.0'', android_version = 18, android_release = ''4.3'',
     dpi = ''320dpi'', resolution = ''720x1280'', brand = ''Samsung'', device = ''Galaxy Nexus'',
     model = ''maguro'', chipset = ''qcom''\<rparr>"

section \<open>Compatibility patches\<close>

text \<open>
  Modelled from the spec: the class \<open>ClientCompatPatch\<close> with its functions
  \<open>media\<close>, \<open>comment\<close>, \<open>user\<close> and \<open>list_user\<close> is defined in the module
  \<open>compatpatch\<close>, which is not among the sources (only its tests are).  The spec
  describes one scheme for the four entity kinds: \<open>patch(entity, drop_incompat_keys)\<close>
  adds legacy-named fields alongside the canonical ones, each derived from current
  (canonical) fields and never from an already-derived field, and
  \<open>drop_incompat_keys\<close> controls whether the fields with no legacy equivalent are
  removed after patching.  A rule names a legacy field, the canonical fields it is
  derived from and the derivation; a field is added when all its sources are present,
  the derivation yields a value and the entity does not have a field of that name yet.
  Which rules and which keys each entity kind has is stated nowhere in the spec: the four
  tables are a parameter \<open>T\<close>.
\<close>

type_synonym rule = "string \<times> string list \<times> (json list \<Rightarrow> json option)"

record patch_table =
  rules :: "rule list"
  incompat_keys :: "string list"

definition derive :: "rule \<Rightarrow> dict \<Rightarrow> json option" where
  "derive r e =
     (case r of (k, sources, g) \<Rightarrow>
        (case those (map (map_of e) sources) of None \<Rightarrow> None | Some vs \<Rightarrow> g vs))"

definition add_field :: "string \<Rightarrow> json \<Rightarrow> dict \<Rightarrow> dict" where
  "add_field k v e = (if map_of e k = None then e @ [(k, v)] else e)"

definition add_legacy :: "rule list \<Rightarrow> dict \<Rightarrow> dict" where
  "add_legacy rs e =
     fold (\<lambda>r acc. case derive r e of None \<Rightarrow> acc | Some v \<Rightarrow> add_field (fst r) v acc) rs e"

definition drop_keys :: "string list \<Rightarrow> dict \<Rightarrow> dict" where
  "drop_keys ks e = filter (\<lambda>(k, v). k \<notin> set ks) e"

definition compat_patch :: "patch_table \<Rightarrow> dict \<Rightarrow> bool \<Rightarrow> dict" where
  "compat_patch t e drop_incompat =
     (let e' = add_legacy (rules t) e
      in if drop_incompat then drop_keys (incompat_keys t) e' else e')"

record compat_tables =
  media_table :: patch_table
  comment_table :: patch_table
  user_table :: patch_table
  list_user_table :: patch_table

definition compat_media :: "compat_tables \<Rightarrow> dict \<Rightarrow> bool \<Rightarrow> dict" where
  "compat_media T = compat_patch (media_table T)"

definition compat_comment :: "compat_tables \<Rightarrow> dict \<Rightarrow> bool \<Rightarrow> dict" where
  "compat_comment T = compat_patch (comment_table T)"

definition compat_user :: "compat_tables \<Rightarrow> dict \<Rightarrow> bool \<Rightarrow> dict" where
  "compat_user T = compat_patch (user_table T)"

definition compat_list_user :: "compat_tables \<Rightarrow> dict \<Rightarrow> bool \<Rightarrow> dict" where
  "compat_list_user T = compat_patch (list_user_table T)"

text \<open>
  What the spec requires of a table: no rule reads a legacy field, and no legacy field is
  among the keys without a legacy equivalent.
\<close>

definition legacy_keys :: "patch_table \<Rightarrow> string list" where
  "legacy_keys t = map fst (rules t)"

definition table_ok :: "patch_table \<Rightarrow> bool" where
  "table_ok t =
     (list_all (\<lambda>(k, sources, g). list_all (\<lambda>c. c \<notin> set (legacy_keys t)) sources) (rules t) \<and>
      list_all (\<lambda>k. k \<notin> set (legacy_keys t)) (incompat_keys t))"

definition tables_ok :: "compat_tables \<Rightarrow> bool" where
  "tables_ok T =
     (table_ok (media_table T) \<and> table_ok (comment_table T) \<and> table_ok (user_table T) \<and>
      table_ok (list_user_table T))"

text \<open>
  Tables with the legacy fields that the tests of the repository name, and a short user
  entity.
\<close>

definition copy_field :: "json list \<Rightarrow> json option" where
  "copy_field vs = (case vs of [v] \<Rightarrow> Some v | _ \<Rightarrow> None)"

definition str_field :: "json list \<Rightarrow> json option" where
  "str_field vs = (case vs of [JInt i] \<Rightarrow> if 0 \<le> i then Some (JStr (decimal (nat i))) else None
                   | _ \<Rightarrow> None)"

definition link_field :: "json list \<Rightarrow> json option" where
  "link_field vs = (case vs of [JStr code] \<Rightarrow> Some (JStr (''https://www.instagram.com/p/'' @ code @ ''/''))
                    | _ \<Rightarrow> None)"

definition ex_tables :: compat_tables where
  "ex_tables =
     \<lparr>media_table =
        \<lparr>rules = [(''link'', [''code''], link_field),
                   (''created_time'', [''taken_at''], str_field),
                   (''images'', [''image_versions2''], copy_field)],
          incompat_keys = [''image_versions2'', ''organic_tracking_token'']\<rparr>,
      comment_table =
        \<lparr>rules = [(''id'', [''pk''], str_field),
                   (''created_time'', [''created_at''], str_field),
                   (''from'', [''user''], copy_field)],
          incompat_keys = [''bit_flags'', ''user_id'']\<rparr>,
      user_table =
        \<lparr>rules = [(''id'', [''pk''], str_field),
                   (''profile_picture'', [''profile_pic_url''], copy_field),
                   (''bio'', [''biography''], copy_field),
                   (''website'', [''external_url''], copy_field)],
          incompat_keys = [''hd_profile_pic_versions'']\<rparr>,
      list_user_table =
        \<lparr>rules = [(''id'', [''pk''], str_field),
                   (''profile_picture'', [''profile_pic_url''], copy_field)],
          incompat_keys = [''profile_pic_id'']\<rparr>\<rparr>"

definition ex_user :: dict where
  "ex_user = [(''pk'', JInt 42), (''username'', JStr ''someone''),
              (''profile_pic_url'', JStr ''http://x/y.jpg''), (''profile_pic_id'', JStr ''9'')]"

section \<open>Pagination: termination\<close>

lemma py_iter_truthy: "truthy v \<Longrightarrow> py_iter v = Inr xs \<Longrightarrow> xs \<noteq> []"
  by (cases v) auto

lemma dget_default_truthy: "truthy (dget d k) \<Longrightarrow> dget_default d k dflt = dget d k"
  by (auto simp: dget_def dget_default_def split: option.splits)

lemma page_loop_stop:
  "\<not> (truthy (dget res flag) \<and> truthy (dget res ''next_max_id'') \<and> int (length media) < n)
   \<Longrightarrow> page_loop call mk flag items n ps res media st = Some (Inr (res, media), st)"
  by (subst page_loop.simps) auto

lemma page_loop_step:
  assumes "truthy (dget res flag)" "truthy (dget res ''next_max_id'')" "int (length media) < n"
  shows "page_loop call mk flag items n ps res media st =
     (let ps' = dict_update ps [(''max_id'', dget res ''next_max_id'')] in
         case call (mk ps') st of
           (Inl e, st') \<Rightarrow> Some (Inl e, st')
         | (Inr res', st') \<Rightarrow>
             (case py_iter (dget_default res' items (JList [])) of
                Inl e \<Rightarrow> Some (Inl e, st')
              | Inr xs \<Rightarrow>
                  if \<not> truthy (dget res' ''next_max_id'') \<or> \<not> truthy (dget res' items)
                  then Some (Inr (res', media @ xs), st')
                  else page_loop call mk flag items n ps' res' (media @ xs) st'))"
  using assms by (subst page_loop.simps) simp

text \<open>
  The loop returns whatever the server answers: each turn that does not leave the loop
  has appended a non-empty list, so \<open>n - len(media)\<close> decreases.
\<close>

lemma page_loop_returns: "\<exists>r. page_loop call mk flag items n ps res media st = Some r"
proof (induction "nat (n - int (length media))" arbitrary: ps res media st rule: less_induct)
  case less
  show ?case
  proof (cases "truthy (dget res flag) \<and> truthy (dget res ''next_max_id'') \<and> int (length media) < n")
    case False
    then show ?thesis by (simp add: page_loop_stop)
  next
    case True
    define ps' where "ps' = dict_update ps [(''max_id'', dget res ''next_max_id'')]"
    obtain r st' where c: "call (mk ps') st = (r, st')" by (cases "call (mk ps') st")
    show ?thesis
    proof (cases r)
      case (Inl e)
      then show ?thesis using True c by (simp add: page_loop_step ps'_def [symmetric])
    next
      case (Inr res')
      show ?thesis
      proof (cases "py_iter (dget_default res' items (JList []))")
        case (Inl e)
        then show ?thesis using True c Inr by (simp add: page_loop_step ps'_def [symmetric])
      next
        case xs: (Inr xs)
        show ?thesis
        proof (cases "\<not> truthy (dget res' ''next_max_id'') \<or> \<not> truthy (dget res' items)")
          case bail: True
          then show ?thesis using True c Inr xs
            by (simp add: page_loop_step ps'_def [symmetric])
        next
          case go: False
          then have "xs \<noteq> []" using xs py_iter_truthy dget_default_truthy by metis
          then have "nat (n - int (length (media @ xs))) < nat (n - int (length media))"
            using True by auto
          from less [OF this] obtain r' where
            "page_loop call mk flag items n ps' res' (media @ xs) st' = Some r'" by blast
          then show ?thesis using True c Inr xs go
            by (simp add: page_loop_step ps'_def [symmetric])
        qed
      qed
    qed
  qed
qed

lemma fetch_pages_returns: "\<exists>r. fetch_pages call mk flag items n ps st = Some r"
  using page_loop_returns [of call mk flag items n ps]
  by (auto simp: fetch_pages_def split: prod.splits sum.splits)

text \<open>
  C3.  The pagination loops of \<open>feed_timeline\<close> and \<open>media_n_comments\<close> terminate:
  whatever the server answers to the successive requests (any page sequence, finite or
  not, failing requests included), for every threshold \<open>n\<close>, every patch function and
  every starting session state, both helpers return a result or raise; neither runs
  forever.  In particular they terminate on the sequences in which some page has a falsy
  flag, no cursor or no items, or in which the count reaches \<open>n\<close>.
\<close>

theorem pagination_terminates:
  "(\<exists>r. feed_timeline patch call self n kwargs st = Some r) \<and>
   (\<exists>r. media_n_comments patch' call self media_id n' reverse kwargs' st = Some r)"
proof
  have "\<exists>r. fetch_pages call
      (\<lambda>p. \<lparr>endpoint = ''feed/timeline/'', params = Some p, query = None, unsigned = True\<rparr>)
      ''more_available'' ''feed_items'' n
      (dict_update
            [(''_uuid'', JStr (uuid self)),
             (''_csrftoken'', JStr (csrftoken self)),
             (''is_prefetch'', JStr ''0''),
             (''is_pull_to_refresh'', JStr ''0''),
             (''phone_id'', JStr (phone_id self)),
             (''timezone_offset'', JInt (timezone_offset self))] kwargs) st = Some r"
    by (rule fetch_pages_returns)
  then show "\<exists>r. feed_timeline patch call self n kwargs st = Some r"
    by (auto simp: feed_timeline_def Let_def split: prod.splits sum.splits)
next
  have "\<exists>r. fetch_pages call
      (\<lambda>q. \<lparr>endpoint = ''media/'' @ media_id @ ''/comments/'', params = None,
                       query = Some q, unsigned = False\<rparr>)
      ''has_more_comments'' ''comments'' n' kwargs' st = Some r"
    by (rule fetch_pages_returns)
  then show "\<exists>r. media_n_comments patch' call self media_id n' reverse kwargs' st = Some r"
    by (auto simp: media_n_comments_def Let_def split: prod.splits sum.splits)
qed

section \<open>Pagination over a given page sequence\<close>

lemma fetched_Suc:
  "i < length pages \<Longrightarrow> fetched items pages (Suc i) = fetched items pages i @ page_items items (pages ! i)"
  by (simp add: fetched_def take_Suc_conv_app_nth)

lemma replay_in: "i < length pages \<Longrightarrow> replay pages req i = (Inr (pages ! i), Suc i)"
  by (simp add: replay_def)

lemma replay_out: "\<not> i < length pages \<Longrightarrow> replay pages req i = (Inl (ClientError ''no response''), Suc i)"
  by (simp add: replay_def)

lemma page_loop_replay:
  assumes "page_loop (replay pages) mk flag items n ps res media i = Some (Inr (res', media'), k)"
    and "0 < i" and "i \<le> length pages" and "res = pages ! (i - 1)"
    and "media = fetched items pages i"
    and "i = 1 \<or> \<not> bails items pages (i - 1)"
  shows "i \<le> k \<and> k \<le> length pages \<and> res' = pages ! (k - 1) \<and> media' = fetched items pages k \<and>
         (\<forall>j. i \<le> Suc j \<and> j < k \<longrightarrow> (Suc j < k) = continues flag items n pages j)"
  using assms
proof (induction "nat (n - int (length media))" arbitrary: ps res media i rule: less_induct)
  case less
  note run = less.prems(1)
  have w: "wants_more flag items n pages (i - 1) =
      (truthy (dget res flag) \<and> truthy (dget res ''next_max_id'') \<and> int (length media) < n)"
    using less.prems by (simp add: wants_more_def)
  have c: "continues flag items n pages (i - 1) = wants_more flag items n pages (i - 1)"
    using less.prems by (auto simp: continues_def)
  show ?case
  proof (cases "wants_more flag items n pages (i - 1)")
    case False
    then have "page_loop (replay pages) mk flag items n ps res media i = Some (Inr (res, media), i)"
      using w by (simp add: page_loop_stop)
    with run have "res' = res" "media' = media" "k = i" by simp_all
    moreover have "\<And>j. i \<le> Suc j \<Longrightarrow> j < i \<Longrightarrow> j = i - 1" by arith
    ultimately show ?thesis using less.prems False c by auto
  next
    case True
    define ps' where "ps' = dict_update ps [(''max_id'', dget res ''next_max_id'')]"
    have g: "truthy (dget res flag)" "truthy (dget res ''next_max_id'')" "int (length media) < n"
      using True w by simp_all
    note step = page_loop_step [OF g, of "replay pages" mk items ps i, folded ps'_def]
    show ?thesis
    proof (cases "i < length pages")
      case False
      then show ?thesis using run step by (simp add: replay_out)
    next
      case lt: True
      show ?thesis
      proof (cases "py_iter (dget_default (pages ! i) items (JList []))")
        case (Inl e)
        then show ?thesis using run step lt by (simp add: replay_in)
      next
        case xs: (Inr xs)
        then have pi: "page_items items (pages ! i) = xs" by (simp add: page_items_def)
        have m': "media @ xs = fetched items pages (Suc i)"
          using lt pi less.prems by (simp add: fetched_Suc)
        show ?thesis
        proof (cases "bails items pages i")
          case bail: True
          then have "page_loop (replay pages) mk flag items n ps res media i
              = Some (Inr (pages ! i, media @ xs), Suc i)"
            using step lt xs by (auto simp: replay_in bails_def)
          with run have r: "res' = pages ! i" "media' = media @ xs" "k = Suc i" by simp_all
          have nc: "\<not> continues flag items n pages i"
            using bail less.prems(2) by (simp add: continues_def)
          have "(Suc j < Suc i) = continues flag items n pages j" if "i \<le> Suc j" "j < Suc i" for j
          proof -
            from that have "j = i - 1 \<or> j = i" by arith
            then show ?thesis
            proof
              assume "j = i - 1"
              then show ?thesis using True c less.prems(2) by simp
            next
              assume "j = i"
              then show ?thesis using nc by simp
            qed
          qed
          then show ?thesis using r m' lt by simp
        next
          case go: False
          then have rec: "page_loop (replay pages) mk flag items n ps' (pages ! i) (media @ xs) (Suc i)
              = Some (Inr (res', media'), k)"
            using step lt xs run by (auto simp: replay_in bails_def)
          have "xs \<noteq> []" using go xs py_iter_truthy dget_default_truthy
            unfolding bails_def by metis
          then have dec: "nat (n - int (length (media @ xs))) < nat (n - int (length media))"
            using g by auto
          have ih: "Suc i \<le> k \<and> k \<le> length pages \<and> res' = pages ! (k - 1) \<and>
              media' = fetched items pages k \<and>
              (\<forall>j. Suc i \<le> Suc j \<and> j < k \<longrightarrow> (Suc j < k) = continues flag items n pages j)"
            using less.hyps [OF dec rec] lt m' go by simp
          have "(Suc j < k) = continues flag items n pages j" if "i \<le> Suc j" "j < k" for j
          proof -
            from that have "j = i - 1 \<or> i \<le> j" by arith
            then show ?thesis
            proof
              assume "j = i - 1"
              then show ?thesis using True c less.prems(2) ih by simp
            next
              assume "i \<le> j"
              then show ?thesis using ih that by simp
            qed
          qed
          then show ?thesis using ih by simp
        qed
      qed
    qed
  qed
qed



lemma fetch_pages_first:
  assumes "pages \<noteq> []" and "py_iter (dget_default (pages ! 0) items (JList [])) = Inr xs"
  shows "fetch_pages (replay pages) mk flag items n ps 0 =
           page_loop (replay pages) mk flag items n ps (pages ! 0) (fetched items pages 1) 1"
proof -
  have "fetched items pages 1 = xs"
    using assms by (cases pages) (simp_all add: fetched_def page_items_def)
  then show ?thesis using assms by (simp add: fetch_pages_def replay_in)
qed

lemma fetch_pages_replay_run:
  assumes "fetch_pages (replay pages) mk flag items n ps 0 = Some (Inr (res, media), k)"
  shows "0 < k \<and> k \<le> length pages \<and> res = pages ! (k - 1) \<and> media = fetched items pages k \<and>
         (\<forall>j<k. (Suc j < k) = continues flag items n pages j)"
proof (cases "pages = []")
  case True
  then show ?thesis using assms by (simp add: fetch_pages_def replay_out)
next
  case False
  show ?thesis
  proof (cases "py_iter (dget_default (pages ! 0) items (JList []))")
    case (Inl e)
    then show ?thesis using assms False by (simp add: fetch_pages_def replay_in)
  next
    case (Inr xs)
    have run: "page_loop (replay pages) mk flag items n ps (pages ! 0) (fetched items pages 1) 1
        = Some (Inr (res, media), k)"
      using assms fetch_pages_first [OF False Inr] by simp
    have "1 \<le> k \<and> k \<le> length pages \<and> res = pages ! (k - 1) \<and> media = fetched items pages k \<and>
         (\<forall>j. 1 \<le> Suc j \<and> j < k \<longrightarrow> (Suc j < k) = continues flag items n pages j)"
      using page_loop_replay [OF run] False by (simp add: Suc_leI)
    then show ?thesis by simp
  qed
qed










section \<open>What the helpers return\<close>


lemma fetched_last:
  "0 < k \<Longrightarrow> k \<le> length pages \<Longrightarrow>
   fetched items pages k = fetched items pages (k - 1) @ page_items items (pages ! (k - 1))"
  using fetched_Suc [of "k - 1" pages items] by simp


lemma feed_timeline_fetched:
  assumes "fetch_pages call
      (\<lambda>p. \<lparr>endpoint = ''feed/timeline/'', params = Some p, query = None, unsigned = True\<rparr>)
      ''more_available'' ''feed_items'' n
      (dict_update
            [(''_uuid'', JStr (uuid self)),
             (''_csrftoken'', JStr (csrftoken self)),
             (''is_prefetch'', JStr ''0''),
             (''is_pull_to_refresh'', JStr ''0''),
             (''phone_id'', JStr (phone_id self)),
             (''timezone_offset'', JInt (timezone_offset self))] kwargs) st
       = Some (Inr (res, media), st')"
  shows "feed_timeline patch call self n kwargs st =
          (if auto_patch self
           then
            (case py_iter (dget_default res ''feed_items'' (JList [])) of
               Inl e \<Rightarrow> Some (Inl e, st')
             | Inr last_items \<Rightarrow>
                 (case map_raise (patch_feed_item patch (drop_incompat_keys self)) last_items of
                    Inl e \<Rightarrow> Some (Inl e, st')
                  | Inr patched \<Rightarrow>
                      Some (Inr (take (length media - length last_items) media @ patched), st')))
           else Some (Inr media, st'))"
  using assms by (simp add: feed_timeline_def Let_def)


lemma feed_timeline_run:
  assumes "feed_timeline patch call self n kwargs st = Some (Inr out, st')"
  shows "\<exists>res media. fetch_pages call
      (\<lambda>p. \<lparr>endpoint = ''feed/timeline/'', params = Some p, query = None, unsigned = True\<rparr>)
      ''more_available'' ''feed_items'' n
      (dict_update
            [(''_uuid'', JStr (uuid self)),
             (''_csrftoken'', JStr (csrftoken self)),
             (''is_prefetch'', JStr ''0''),
             (''is_pull_to_refresh'', JStr ''0''),
             (''phone_id'', JStr (phone_id self)),
             (''timezone_offset'', JInt (timezone_offset self))] kwargs) st
       = Some (Inr (res, media), st')"
  using assms
  by (auto simp: feed_timeline_def Let_def split: option.splits prod.splits sum.splits if_splits)

lemma media_n_comments_run:
  assumes "media_n_comments patch call self media_id n reverse kwargs st = Some (Inr out, st')"
  shows "\<exists>res comments. fetch_pages call
      (\<lambda>q. \<lparr>endpoint = ''media/'' @ media_id @ ''/comments/'', params = None,
                       query = Some q, unsigned = False\<rparr>)
      ''has_more_comments'' ''comments'' n kwargs st = Some (Inr (res, comments), st')"
  using assms
  by (auto simp: media_n_comments_def Let_def split: option.splits prod.splits sum.splits if_splits)


















text \<open>
  C10.  When \<open>auto_patch\<close> is set and \<open>feed_timeline\<close> returns a list after
  \<open>k\<close> requests, the list is the items of the first \<open>k - 1\<close> pages exactly as they
  were fetched, followed by the items of the last fetched page after
  \<open>patch_feed_item\<close>: only the final response is patched.
\<close>

theorem feed_timeline_patches_last_page:
  assumes "auto_patch self"
    and "feed_timeline patch (replay pages) self n kwargs 0 = Some (Inr out, k)"
  shows "0 < k \<and> k \<le> length pages \<and>
         (\<exists>patched. out = fetched ''feed_items'' pages (k - 1) @ patched \<and>
            map_raise (patch_feed_item patch (drop_incompat_keys self))
              (page_items ''feed_items'' (pages ! (k - 1))) = Inr patched)"
proof -
  from feed_timeline_run [OF assms(2)] obtain res media where
    f: "fetch_pages (replay pages)
      (\<lambda>p. \<lparr>endpoint = ''feed/timeline/'', params = Some p, query = None, unsigned = True\<rparr>)
      ''more_available'' ''feed_items'' n
      (dict_update
            [(''_uuid'', JStr (uuid self)),
             (''_csrftoken'', JStr (csrftoken self)),
             (''is_prefetch'', JStr ''0''),
             (''is_pull_to_refresh'', JStr ''0''),
             (''phone_id'', JStr (phone_id self)),
             (''timezone_offset'', JInt (timezone_offset self))] kwargs) 0
       = Some (Inr (res, media), k)"
    by blast
  from fetch_pages_replay_run [OF f]
  have k: "0 < k" "k \<le> length pages" and res: "res = pages ! (k - 1)"
    and media: "media = fetched ''feed_items'' pages k"
    by simp_all
  from assms feed_timeline_fetched [OF f, of patch]
  obtain last_items patched where
    li: "py_iter (dget_default res ''feed_items'' (JList [])) = Inr last_items"
    and pa: "map_raise (patch_feed_item patch (drop_incompat_keys self)) last_items = Inr patched"
    and out: "out = take (length media - length last_items) media @ patched"
    by (auto split: sum.splits)
  have l: "last_items = page_items ''feed_items'' (pages ! (k - 1))"
    using li res by (simp add: page_items_def)
  have "take (length media - length last_items) media = fetched ''feed_items'' pages (k - 1)"
    using fetched_last [OF k, of "''feed_items''"] media l by simp
  then show ?thesis using k out pa l by simp
qed

theorem feed_timeline_patches_last_page_witness:
  "feed_timeline ex_patch (replay ex_pages2) (ex_self\<lparr>auto_patch := True\<rparr>) 50 [] 0
     = Some (Inr [ex_item 1,
                  JObj [(''media_or_ad'', JObj [(''pk'', JInt 3), (''id'', JStr ''x'')])]], 2) \<and>
   (\<exists>patched.
      [ex_item 1, JObj [(''media_or_ad'', JObj [(''pk'', JInt 3), (''id'', JStr ''x'')])]]
        = fetched ''feed_items'' ex_pages2 1 @ patched \<and>
      map_raise (patch_feed_item ex_patch False) (page_items ''feed_items'' (ex_pages2 ! 1))
        = Inr patched)"
proof -
  have run: "feed_timeline ex_patch (replay ex_pages2) (ex_self\<lparr>auto_patch := True\<rparr>) 50 [] 0
     = Some (Inr [ex_item 1,
                  JObj [(''media_or_ad'', JObj [(''pk'', JInt 3), (''id'', JStr ''x'')])]], 2)"
    by (simp add: feed_timeline_def fetch_pages_def replay_def ex_pages2_def
        dget_default_def dget_def page_loop_stop page_loop_step ex_self_def ex_item_def
        ex_patch_def Let_def)
  have ap: "auto_patch (ex_self\<lparr>auto_patch := True\<rparr>)" by simp
  show ?thesis
    using feed_timeline_patches_last_page [OF ap run] run by (simp add: ex_self_def)
qed

section \<open>Sorting the comments\<close>





































section \<open>Comment validation\<close>







lemma ex_validate_urls:
  "validate_comment ''see http://a.b and https://c.d''
     = Some (ValueError ''The comment cannot contain more than 1 URL.'')"
  by code_simp

lemma ex_validate_long:
  "validate_comment (replicate 301 CHR ''a'')
     = Some (ValueError ''The total length of the comment cannot exceed 300 characters.'')"
  by code_simp

lemma ex_validate_ok: "validate_comment ''Nice #pic http://a.b'' = None"
  by code_simp


text \<open>
  C5.  When the text fails validation, \<open>post_comment\<close> ends with the validation
  error and the state it was called in: whatever \<open>_call_api\<close>,
  \<open>gen_user_breadcrumb\<close> and \<open>generate_uuid\<close> would do to the state, none of them
  has run, so no request has been issued.
\<close>

theorem post_comment_validation_atomic:
  assumes "validate_comment text = Some e"
  shows "post_comment patch call crumb gen self media_id text st = (Inl e, st)"
  using assms by (simp add: post_comment_def)

lemma ex_post_logged:
  "snd (post_comment ex_patch log_call ex_crumb ex_uuid ex_self ''1'' ''Nice #pic http://a.b'' [])
     = [\<lparr>endpoint = ''media/1/comment/'',
         params = Some [(''comment_text'', JStr ''Nice #pic http://a.b''),
                        (''user_breadcrumb'', JStr ''crumb''),
                        (''idempotence_token'', JStr ''0000-0000''),
                        (''containermodule'', JStr ''comments_feed_timeline''),
                        (''_uid'', JStr ''1'')],
         query = None, unsigned = False\<rparr>]"
  by (simp add: post_comment_def ex_validate_ok Let_def ex_crumb_def ex_uuid_def log_call_def
      ex_self_def dict_update_def)

theorem post_comment_validation_atomic_witness:
  "post_comment ex_patch log_call ex_crumb ex_uuid ex_self ''1''
       ''see http://a.b and https://c.d'' []
     = (Inl (ValueError ''The comment cannot contain more than 1 URL.''), []) \<and>
   post_comment ex_patch log_call ex_crumb ex_uuid ex_self ''1'' (replicate 301 CHR ''a'') []
     = (Inl (ValueError ''The total length of the comment cannot exceed 300 characters.''), []) \<and>
   length (snd (post_comment ex_patch log_call ex_crumb ex_uuid ex_self ''1''
                  ''Nice #pic http://a.b'' [])) = 1"
  using post_comment_validation_atomic [OF ex_validate_urls, of ex_patch log_call ex_crumb ex_uuid ex_self "''1''" "[]"]
    post_comment_validation_atomic [OF ex_validate_long, of ex_patch log_call ex_crumb ex_uuid ex_self "''1''" "[]"]
    ex_post_logged
  by simp

section \<open>The settings round trip\<close>

lemma index_of_nth: "distinct xs \<Longrightarrow> i < length xs \<Longrightarrow> index_of (xs ! i) xs = Some i"
proof (induction xs arbitrary: i)
  case Nil
  then show ?case by simp
next
  case (Cons x xs)
  show ?case
  proof (cases i)
    case 0
    then show ?thesis by simp
  next
    case (Suc j)
    then have "xs ! j \<in> set xs" using Cons.prems by simp
    then have "x \<noteq> xs ! j" using Cons.prems by auto
    then show ?thesis using Suc Cons by simp
  qed
qed

lemma index_of_None: "c \<notin> set xs \<Longrightarrow> index_of c xs = None"
  by (induction xs) auto

lemma b64_alphabet_distinct: "distinct b64_alphabet"
  by (simp add: b64_alphabet_def)

lemma b64_alphabet_length: "length b64_alphabet = 64"
  by (simp add: b64_alphabet_def)

lemma b64_index_char: "i < 64 \<Longrightarrow> b64_index (b64_char i) = Some i"
  by (simp add: b64_index_def b64_char_def index_of_nth b64_alphabet_distinct b64_alphabet_length)

lemma b64_char_not_pad: "i < 64 \<Longrightarrow> b64_char i \<noteq> CHR ''=''"
proof -
  assume "i < 64"
  then have "b64_char i \<in> set b64_alphabet"
    by (simp add: b64_char_def b64_alphabet_length)
  moreover have "CHR ''='' \<notin> set b64_alphabet" by (simp add: b64_alphabet_def)
  ultimately show ?thesis by auto
qed

lemma b64_index_newline: "b64_index (CHR 0x0A) = None"
  by (simp add: b64_index_def b64_alphabet_def)

lemma a2b_sextet:
  assumes "v < 64"
  shows "a2b_loop (b64_char v # cs) q l p out =
           (if q = 0 then a2b_loop cs 1 v 0 out
            else if q = 1
            then a2b_loop cs 2 (v mod 16) 0 (out @ [of_nat (l * 4 + v div 16)])
            else if q = 2
            then a2b_loop cs 3 (v mod 4) 0 (out @ [of_nat (l * 16 + v div 4)])
            else a2b_loop cs 0 0 0 (out @ [of_nat (l * 64 + v)]))"
  using assms by (simp add: b64_index_char b64_char_not_pad)

lemma a2b_newline: "a2b_loop (CHR 0x0A # cs) q l p out = a2b_loop cs q l p out"
  by (simp add: b64_index_newline)

lemma byte_split4: "(unat (a :: byte) div 4) * 4 + unat a mod 4 = unat a"
  by simp

lemma a2b_s0: "v < 64 \<Longrightarrow> a2b_loop (b64_char v # cs) 0 l p out = a2b_loop cs 1 v 0 out"
  by (simp add: a2b_sextet del: a2b_loop.simps)

lemma a2b_s1:
  "v < 64 \<Longrightarrow> a2b_loop (b64_char v # cs) 1 l p out
     = a2b_loop cs 2 (v mod 16) 0 (out @ [of_nat (l * 4 + v div 16)])"
  by (simp add: a2b_sextet del: a2b_loop.simps)

lemma a2b_s2:
  "v < 64 \<Longrightarrow> a2b_loop (b64_char v # cs) 2 l p out
     = a2b_loop cs 3 (v mod 4) 0 (out @ [of_nat (l * 16 + v div 4)])"
  by (simp add: a2b_sextet del: a2b_loop.simps)

lemma a2b_s3:
  "v < 64 \<Longrightarrow> a2b_loop (b64_char v # cs) 3 l p out
     = a2b_loop cs 0 0 0 (out @ [of_nat (l * 64 + v)])"
  by (simp add: a2b_sextet del: a2b_loop.simps)

lemma byte_bound: "unat (a :: byte) < 256"
  using unsigned_less [of a, where 'a = nat] by simp

lemma a2b_quad:
  fixes a b c :: byte
  shows "a2b_loop ([b64_char (unat a div 4),
      b64_char ((unat a mod 4) * 16 + unat b div 16),
      b64_char ((unat b mod 16) * 4 + unat c div 64),
      b64_char (unat c mod 64)] @ cs) 0 l p out = a2b_loop cs 0 0 0 (out @ [a, b, c])"
proof -
  define s0 where "s0 = unat a div 4"
  define s1 where "s1 = (unat a mod 4) * 16 + unat b div 16"
  define s2 where "s2 = (unat b mod 16) * 4 + unat c div 64"
  define s3 where "s3 = unat c mod 64"
  note a = byte_bound [of a] and b = byte_bound [of b] and c = byte_bound [of c]
  have b0: "s0 < 64" using a by (simp add: s0_def)
  have b1: "s1 < 64" using b unfolding s1_def by arith
  have b2: "s2 < 64" using c unfolding s2_def by arith
  have b3: "s3 < 64" by (simp add: s3_def)
  have e1: "s0 * 4 + s1 div 16 = unat a" using b unfolding s0_def s1_def by simp
  have e2: "(s1 mod 16) * 16 + s2 div 4 = unat b" using b c unfolding s1_def s2_def by simp
  have e3: "(s2 mod 4) * 64 + s3 = unat c" using c unfolding s2_def s3_def by simp
  have "a2b_loop ([b64_char s0, b64_char s1, b64_char s2, b64_char s3] @ cs) 0 l p out
      = a2b_loop cs 0 0 0 (((out @ [of_nat (unat a)]) @ [of_nat (unat b)]) @ [of_nat (unat c)])"
    by (simp only: append_Cons append_Nil a2b_s0 [OF b0] a2b_s1 [OF b1] a2b_s2 [OF b2]
        a2b_s3 [OF b3] e1 e2 e3)
  then show ?thesis by (simp add: s0_def s1_def s2_def s3_def)
qed

lemma a2b_pad1:
  fixes a :: byte
  shows "a2b_loop ([b64_char (unat a div 4), b64_char ((unat a mod 4) * 16),
      CHR ''='', CHR ''=''] @ cs) 0 l p out = Inr (out @ [a])"
proof -
  define s0 where "s0 = unat a div 4"
  define s1 where "s1 = (unat a mod 4) * 16"
  note a = byte_bound [of a]
  have b0: "s0 < 64" using a by (simp add: s0_def)
  have b1: "s1 < 64" unfolding s1_def by arith
  have e1: "s0 * 4 + s1 div 16 = unat a" unfolding s0_def s1_def by simp
  have "a2b_loop ([b64_char s0, b64_char s1, CHR ''='', CHR ''=''] @ cs) 0 l p out
      = a2b_loop (CHR ''='' # CHR ''='' # cs) 2 (s1 mod 16) 0 (out @ [of_nat (unat a)])"
    by (simp only: append_Cons append_Nil a2b_s0 [OF b0] a2b_s1 [OF b1] e1)
  also have "\<dots> = Inr (out @ [a])" by simp
  finally show ?thesis by (simp add: s0_def s1_def)
qed

lemma a2b_pad2:
  fixes a b :: byte
  shows "a2b_loop ([b64_char (unat a div 4), b64_char ((unat a mod 4) * 16 + unat b div 16),
      b64_char ((unat b mod 16) * 4), CHR ''=''] @ cs) 0 l p out = Inr (out @ [a, b])"
proof -
  define s0 where "s0 = unat a div 4"
  define s1 where "s1 = (unat a mod 4) * 16 + unat b div 16"
  define s2 where "s2 = (unat b mod 16) * 4"
  note a = byte_bound [of a] and b = byte_bound [of b]
  have b0: "s0 < 64" using a by (simp add: s0_def)
  have b1: "s1 < 64" using b unfolding s1_def by arith
  have b2: "s2 < 64" unfolding s2_def by arith
  have e1: "s0 * 4 + s1 div 16 = unat a" using b unfolding s0_def s1_def by simp
  have e2: "(s1 mod 16) * 16 + s2 div 4 = unat b" using b unfolding s1_def s2_def by simp
  have "a2b_loop ([b64_char s0, b64_char s1, b64_char s2, CHR ''=''] @ cs) 0 l p out
      = a2b_loop (CHR ''='' # cs) 3 (s2 mod 4) 0 ((out @ [of_nat (unat a)]) @ [of_nat (unat b)])"
    by (simp only: append_Cons append_Nil a2b_s0 [OF b0] a2b_s1 [OF b1] a2b_s2 [OF b2] e1 e2)
  also have "\<dots> = Inr (out @ [a, b])" by simp
  finally show ?thesis by (simp add: s0_def s1_def s2_def)
qed

text \<open>One line of the encoding, followed by anything.\<close>

lemma a2b_line:
  "a2b_loop (b2a xs @ CHR 0x0A # cs) 0 0 0 out =
     (if length xs mod 3 = 0 then a2b_loop cs 0 0 0 (out @ xs) else Inr (out @ xs))"
proof (induction xs arbitrary: out rule: b2a.induct)
  case (1 a b c rest)
  have "a2b_loop (b2a (a # b # c # rest) @ CHR 0x0A # cs) 0 0 0 out
      = a2b_loop (b2a rest @ CHR 0x0A # cs) 0 0 0 (out @ [a, b, c])"
    using a2b_quad [of a b c "b2a rest @ CHR 0x0A # cs" 0 0 out] by simp
  then show ?case using 1 [of "out @ [a, b, c]"] by (simp del: a2b_loop.simps b2a.simps)
next
  case (2 a b)
  show ?case using a2b_pad2 [of a b "CHR 0x0A # cs" 0 0 out] by simp
next
  case (3 a)
  show ?case using a2b_pad1 [of a "CHR 0x0A # cs" 0 0 out] by simp
next
  case 4
  show ?case by (simp add: a2b_newline del: a2b_loop.simps)
qed

lemma decode_encode_acc: "a2b_loop (encodebytes bs) 0 0 0 out = Inr (out @ bs)"
proof (induction "length bs" arbitrary: bs out rule: less_induct)
  case less
  show ?case
  proof (cases "bs = []")
    case True
    then show ?thesis by (simp add: encodebytes_def)
  next
    case False
    then have enc: "encodebytes bs = b2a (take 57 bs) @ CHR 0x0A # encodebytes (drop 57 bs)"
      by (simp add: encodebytes_def b2a_base64_def)
    show ?thesis
    proof (cases "length bs \<le> 57")
      case True
      then have "encodebytes bs = b2a bs @ CHR 0x0A # []"
        using enc by (simp add: encodebytes_def)
      then show ?thesis by (simp add: a2b_line del: a2b_loop.simps) simp
    next
      case long: False
      then have l: "length (take 57 bs) mod 3 = 0" by simp
      have "length (drop 57 bs) < length bs" using False by simp
      from less [OF this, of "out @ take 57 bs"]
      show ?thesis unfolding enc using l by (simp add: a2b_line del: a2b_loop.simps)
    qed
  qed
qed

lemma decode_encode: "decodebytes (encodebytes bs) = Inr bs"
  by (simp add: decodebytes_def decode_encode_acc)


lemma from_json_to_json:
  "to_json (PBytes b) = Inr (PDict [(''__class__'', PStr ''bytes''), (''__value__'', PStr (encodebytes b))]) \<and>
   from_json [(''__class__'', PStr ''bytes''), (''__value__'', PStr (encodebytes b))] = Inr (PBytes b)"
  by (simp add: to_json_def from_json_def decode_encode)

lemma collect_map_Inr:
  assumes "\<And>x. x \<in> set xs \<Longrightarrow> \<exists>j. f x = Inr j \<and> g j = Inr x"
  shows "\<exists>js. collect (map f xs) = Inr js \<and> collect (map g js) = Inr xs"
  using assms
proof (induction xs)
  case Nil
  then show ?case by simp
next
  case (Cons x xs)
  then obtain j where j: "f x = Inr j" "g j = Inr x" by auto
  from Cons obtain js where "collect (map f xs) = Inr js" "collect (map g js) = Inr xs" by auto
  with j show ?case by simp
qed

lemma collect_items_map_Inr:
  assumes "\<And>kv. kv \<in> set kvs \<Longrightarrow> \<exists>j. f (snd kv) = Inr j \<and> g j = Inr (snd kv)"
  shows "\<exists>js. collect_items (map (map_prod id f) kvs) = Inr js \<and>
              collect_items (map (map_prod id g) js) = Inr kvs"
  using assms
proof (induction kvs)
  case Nil
  then show ?case by simp
next
  case (Cons kv kvs)
  obtain k x where kv: "kv = (k, x)" by (cases kv)
  with Cons.prems [of kv] obtain j where j: "f x = Inr j" "g j = Inr x" by auto
  have "\<exists>j. f (snd p) = Inr j \<and> g j = Inr (snd p)" if "p \<in> set kvs" for p
    using Cons.prems [of p] that by simp
  from Cons.IH [OF this] obtain js where "collect_items (map (map_prod id f) kvs) = Inr js"
      "collect_items (map (map_prod id g) js) = Inr kvs" by blast
  with j kv show ?case by (auto simp: id_def)
qed

lemma from_json_plain:
  "map_of d ''__class__'' \<noteq> Some (PStr ''bytes'') \<Longrightarrow> from_json d = Inr (PDict d)"
  by (simp add: from_json_def)

lemma json_round_trip: "plain v \<Longrightarrow> \<exists>doc. json_dump v = Inr doc \<and> json_load doc = Inr v"
proof (induction v)
  case (PBytes b)
  show ?case by (simp add: to_json_def from_json_def decode_encode)
next
  case (PList xs)
  have "\<exists>js. collect (map json_dump xs) = Inr js \<and> collect (map json_load js) = Inr xs"
  proof (rule collect_map_Inr)
    fix x assume "x \<in> set xs"
    then show "\<exists>j. json_dump x = Inr j \<and> json_load j = Inr x"
      using PList by (auto simp: list_all_iff)
  qed
  then show ?case by auto
next
  case (PDict kvs)
  have "\<exists>js. collect_items (map (map_prod id json_dump) kvs) = Inr js \<and>
              collect_items (map (map_prod id json_load) js) = Inr kvs"
  proof (rule collect_items_map_Inr)
    fix kv assume in_kvs: "kv \<in> set kvs"
    then have "plain (snd kv)" using PDict.prems by (auto simp: list_all_iff pred_prod_beta)
    moreover have "snd kv \<in> Basic_BNFs.snds kv" by (cases kv) simp
    ultimately show "\<exists>j. json_dump (snd kv) = Inr j \<and> json_load j = Inr (snd kv)"
      using PDict.IH in_kvs by blast
  qed
  then obtain js where "collect_items (map (map_prod id json_dump) kvs) = Inr js"
    "collect_items (map (map_prod id json_load) js) = Inr kvs" by blast
  then show ?case using PDict.prems by (simp add: from_json_plain)
qed simp_all


text \<open>
  C7.  A settings value survives saving and loading: for every settings value (none of
  whose dictionaries is itself tagged as bytes), \<open>json.dump\<close> with
  \<open>default=to_json\<close> produces a document, and \<open>json.load\<close> with
  \<open>object_hook=from_json\<close> gives the same value back from it, byte strings included;
  in particular \<open>from_json(to_json(b)) = b\<close> for every byte string \<open>b\<close>.
\<close>

theorem settings_round_trip:
  "(plain v \<longrightarrow> (\<exists>doc. json_dump v = Inr doc \<and> json_load doc = Inr v)) \<and>
   (\<exists>d. to_json (PBytes b) = Inr (PDict d) \<and> from_json d = Inr (PBytes b))"
  using json_round_trip [of v] from_json_to_json [of b] by blast

lemma ex_settings_dump:
  "json_dump ex_settings =
     Inr (JObj [(''uuid'', JStr ''2b1a''), (''created_ts'', JInt 1500000000),
                (''cookie'', JObj [(''__class__'', JStr ''bytes''),
                                   (''__value__'', JStr [CHR ''g'', CHR ''A'', CHR ''N'', CHR ''o'',
                                      CHR ''a'', CHR ''Q'', CHR ''='', CHR ''='', CHR 0x0A])])])"
  by code_simp

theorem settings_round_trip_witness:
  "\<exists>doc. json_dump ex_settings = Inr doc \<and> json_load doc = Inr ex_settings"
proof -
  have "plain ex_settings" by (simp add: ex_settings_def)
  then show ?thesis using settings_round_trip [of ex_settings "[]"] by blast
qed

lemma tagged_dict_not_preserved:
  "json_dump (PDict [(''__class__'', PStr ''bytes''), (''__value__'', PStr ''aGk='')])
     = Inr (JObj [(''__class__'', JStr ''bytes''), (''__value__'', JStr ''aGk='')]) \<and>
   json_load (JObj [(''__class__'', JStr ''bytes''), (''__value__'', JStr ''aGk='')])
     = Inr (PBytes [104, 105])"
  by code_simp

section \<open>User-agent generation and parsing\<close>

lemma digit_char_is_digit: "d < 10 \<Longrightarrow> is_digit (digit_char d)"
  by (simp add: is_digit_def digit_char_def)

lemma digit_val_char: "d < 10 \<Longrightarrow> digit_val (digit_char d) = d"
  by (simp add: digit_val_def digit_char_def)

lemma decimal_digits: "list_all is_digit (decimal n) \<and> decimal n \<noteq> []"
proof (induction n rule: decimal.induct)
  case (1 n)
  show ?case
  proof (cases "n < 10")
    case True
    then show ?thesis by (simp add: decimal.simps [of n] digit_char_is_digit)
  next
    case False
    then have "decimal n = decimal (n div 10) @ [digit_char (n mod 10)]"
      by (simp add: decimal.simps [of n])
    moreover have "is_digit (digit_char (n mod 10))" by (simp add: digit_char_is_digit)
    ultimately show ?thesis using 1 False by simp
  qed
qed

lemma nat_of_decimal_snoc: "nat_of_decimal (s @ [c]) = nat_of_decimal s * 10 + digit_val c"
  by (simp add: nat_of_decimal_def)

lemma nat_of_decimal_decimal: "nat_of_decimal (decimal n) = n"
proof (induction n rule: decimal.induct)
  case (1 n)
  show ?case
  proof (cases "n < 10")
    case True
    then show ?thesis by (simp add: decimal.simps [of n] nat_of_decimal_def digit_val_char)
  next
    case False
    then have "decimal n = decimal (n div 10) @ [digit_char (n mod 10)]"
      by (simp add: decimal.simps [of n])
    then have "nat_of_decimal (decimal n) = nat_of_decimal (decimal (n div 10)) * 10 + n mod 10"
      by (simp only: nat_of_decimal_snoc) (simp add: digit_val_char)
    then show ?thesis using 1 False by simp
  qed
qed

lemma decimal_no_slash: "CHR ''/'' \<notin> set (decimal n)"
proof
  assume "CHR ''/'' \<in> set (decimal n)"
  then have "is_digit CHR ''/''" using decimal_digits [of n] by (auto simp: list_all_iff)
  then show False by (simp add: is_digit_def)
qed

lemma split_at_append: "c \<notin> set a \<Longrightarrow> split_at c (a @ c # r) = Some (a, r)"
  by (induction a) auto

lemma strip_prefix_append: "strip_prefix p (p @ r) = Some r"
  by (simp add: strip_prefix_def)

lemma field_append: "field_ok f \<Longrightarrow> ua_field (f @ CHR '';'' # CHR '' '' # r) = Some (f, r)"
  using strip_prefix_append [of "'' ''" r]
  by (simp add: ua_field_def field_ok_def split_at_append)

lemma nth_field: "field_ok f \<Longrightarrow> ua_fields n r = Some (fs, r') \<Longrightarrow>
    ua_fields (Suc n) (f @ CHR '';'' # CHR '' '' # r) = Some (f # fs, r')"
  by (simp add: field_append)

lemma seven_fields:
  assumes "field_ok f1" "field_ok f2" "field_ok f3" "field_ok f4" "field_ok f5" "field_ok f6"
    "field_ok f7"
  shows "ua_fields 7 (f1 @ ''; '' @ f2 @ ''; '' @ f3 @ ''; '' @ f4 @ ''; '' @ f5 @ ''; '' @ f6 @ ''; ''
            @ f7 @ ''; '' @ r) = Some ([f1, f2, f3, f4, f5, f6, f7], r)"
proof -
  have 7: "(7::nat) = Suc (Suc (Suc (Suc (Suc (Suc (Suc 0))))))" by simp
  show ?thesis unfolding 7
    using assms by (simp add: field_append del: ua_fields.simps(2)) (simp add: field_append)
qed

lemma validate_step:
  assumes "CHR '' '' \<notin> set v" and "CHR ''/'' \<notin> set av"
  shows "validate_useragent (''Instagram '' @ (v @ CHR '' '' # (''Android ('' @ (av @ CHR ''/'' # rest))))
      = (if v = [] \<or> av = [] \<or> \<not> list_all is_digit av then Inl ua_error
          else
     (case ua_fields 7 rest of
        None \<Rightarrow> Inl ua_error
      | Some (fs, s5) \<Rightarrow>
     (case split_at CHR '')'' s5 of
        None \<Rightarrow> Inl ua_error
      | Some (locale, rest) \<Rightarrow>
          if locale = [] then Inl ua_error
          else (case device_of v av fs of None \<Rightarrow> Inl ua_error | Some d \<Rightarrow> Inr d))))"
proof -
  note e2 = split_at_append [OF assms(1), of "''Android ('' @ (av @ CHR ''/'' # rest)"]
  note e4 = split_at_append [OF assms(2), of rest]
  show ?thesis
    unfolding validate_useragent_def
    by (simp only: strip_prefix_append e2 e4 option.case prod.case)
qed

lemma validate_generate:
  assumes "fields_ok d"
  shows "validate_useragent (generate_useragent d) = Inr d"
proof -
  define tail where "tail = android_release d @ ''; '' @ dpi d @ ''; '' @ resolution d @ ''; '' @
     brand d @ ''; '' @ device d @ ''; '' @ model d @ ''; '' @ chipset d @ ''; '' @
     (''en_US'' @ CHR '')'' # [])"
  have g: "generate_useragent d = ''Instagram '' @ (app_version d @ CHR '' '' #
      (''Android ('' @ (decimal (android_version d) @ CHR ''/'' # tail)))"
    by (simp add: generate_useragent_def tail_def)
  have loc: "split_at CHR '')'' (''en_US'' @ CHR '')'' # []) = Some (''en_US'', [])"
    by (rule split_at_append) simp
  have f: "ua_fields 7 tail
     = Some ([android_release d, dpi d, resolution d, brand d, device d, model d, chipset d],
             ''en_US'' @ CHR '')'' # [])"
    unfolding tail_def using assms by (intro seven_fields) (simp_all add: fields_ok_def)
  have sp: "CHR '' '' \<notin> set (app_version d)" and ne: "app_version d \<noteq> []"
    using assms by (simp_all add: fields_ok_def)
  have dg: "decimal (android_version d) \<noteq> []" "list_all is_digit (decimal (android_version d))"
    using decimal_digits [of "android_version d"] by simp_all
  have "validate_useragent (generate_useragent d)
      = (case device_of (app_version d) (decimal (android_version d))
           [android_release d, dpi d, resolution d, brand d, device d, model d, chipset d] of
           None \<Rightarrow> Inl ua_error | Some d \<Rightarrow> Inr d)"
    unfolding g validate_step [OF sp decimal_no_slash] f
    using ne dg loc by simp
  also have "\<dots> = Inr d" by (simp add: nat_of_decimal_decimal)
  finally show ?thesis .
qed

lemma validate_rejects:
  assumes "CHR '' '' \<notin> set v" and "CHR ''/'' \<notin> set av"
    and "av = [] \<or> \<not> list_all is_digit av"
  shows "validate_useragent (''Instagram '' @ v @ '' Android ('' @ av @ ''/'' @ rest) = Inl ua_error"
proof -
  have g: "''Instagram '' @ v @ '' Android ('' @ av @ ''/'' @ rest
      = ''Instagram '' @ (v @ CHR '' '' # (''Android ('' @ (av @ CHR ''/'' # rest)))"
    by simp
  show ?thesis unfolding g validate_step [OF assms(1,2)] using assms(3) by auto
qed


text \<open>
  C8.  Parsing is a left inverse of generation on validated device fields:
  \<open>validate_useragent\<close> applied to the descriptor that \<open>generate_useragent\<close>
  makes from them gives exactly those fields back.  And parsing raises a \<open>ValueError\<close>
  for every descriptor whose android-version segment (the text between
  \<open>"Android ("\<close> and the first \<open>/\<close>) is empty or has a character that is not a
  digit.
\<close>

theorem useragent_round_trip:
  "(fields_ok d \<longrightarrow> validate_useragent (generate_useragent d) = Inr d) \<and>
   (CHR '' '' \<notin> set v \<and> CHR ''/'' \<notin> set av \<and> (av = [] \<or> \<not> list_all is_digit av) \<longrightarrow>
      (\<exists>msg. validate_useragent (''Instagram '' @ v @ '' Android ('' @ av @ ''/'' @ rest)
                = Inl (ValueError msg)))"
  using validate_generate [of d] validate_rejects [of v av rest] by (simp add: ua_error_def)

lemma test_generate_useragent:
  "generate_useragent ex_device
     = ''Instagram 10.9.0 Android (18/4.3; 320dpi; 720x1280; Samsung; Galaxy Nexus; maguro; qcom; en_US)''"
  by code_simp

lemma test_validate_useragent:
  "validate_useragent
     ''Instagram 9.2.0 Android (22/5.1.1; 480dpi; 1080x1920; Xiaomi; Redmi Note 3; kenzo; qcom; en_GB)''
     = Inr \<lparr>app_version = ''9.2.0'', android_version = 22, android_release = ''5.1.1'',
            dpi = ''480dpi'', resolution = ''1080x1920'', brand = ''Xiaomi'',
            device = ''Redmi Note 3'', model = ''kenzo'', chipset = ''qcom''\<rparr>"
  by code_simp

lemma ex_device_ok: "fields_ok ex_device"
  by code_simp

theorem useragent_round_trip_witness:
  "validate_useragent (generate_useragent ex_device) = Inr ex_device \<and>
   (\<exists>msg. validate_useragent
      (''Instagram '' @ ''9.2.0'' @ '' Android ('' @ ''xx'' @ ''/'' @
       ''5.1.1; 480dpi; 1080x1920; Xiaomi; Redmi Note 3; kenzo; qcom; en_GB)'')
       = Inl (ValueError msg))"
proof -
  have a: "CHR '' '' \<notin> set ''9.2.0'' \<and> CHR ''/'' \<notin> set ''xx'' \<and>
           (''xx'' = [] \<or> \<not> list_all is_digit ''xx'')"
    by (simp add: is_digit_def)
  show ?thesis
    using useragent_round_trip [of ex_device "''9.2.0''" "''xx''"
        "''5.1.1; 480dpi; 1080x1920; Xiaomi; Redmi Note 3; kenzo; qcom; en_GB)''"]
      ex_device_ok a
    by blast
qed

section \<open>Compatibility patches are idempotent and additive\<close>

lemma add_field_shape:
  "\<exists>n. add_field k v (e @ m) = e @ n \<and> fst ` set n \<subseteq> insert k (fst ` set m) \<and>
       (map_of (e @ m) k' \<noteq> None \<longrightarrow> map_of (e @ n) k' \<noteq> None) \<and> map_of (e @ n) k \<noteq> None"
proof (cases "map_of (e @ m) k = None")
  case True
  then have "add_field k v (e @ m) = e @ (m @ [(k, v)])" by (simp add: add_field_def)
  moreover have "map_of (e @ m @ [(k, v)]) k \<noteq> None"
    by (simp add: map_add_def split: option.splits)
  moreover have "map_of (e @ m) k' \<noteq> None \<longrightarrow> map_of (e @ m @ [(k, v)]) k' \<noteq> None"
    by (auto simp: map_add_def split: option.splits)
  ultimately show ?thesis by (intro exI [of _ "m @ [(k, v)]"]) auto
next
  case False
  then show ?thesis by (intro exI [of _ m]) (auto simp: add_field_def)
qed

lemma fold_shape:
  "\<exists>n. fold (\<lambda>r acc. case derive r e0 of None \<Rightarrow> acc | Some v \<Rightarrow> add_field (fst r) v acc) rs (e @ m)
          = e @ n \<and>
       fst ` set n \<subseteq> fst ` set rs \<union> fst ` set m \<and>
       (\<forall>k. map_of (e @ m) k \<noteq> None \<longrightarrow> map_of (e @ n) k \<noteq> None) \<and>
       (\<forall>r \<in> set rs. derive r e0 \<noteq> None \<longrightarrow> map_of (e @ n) (fst r) \<noteq> None)"
proof (induction rs arbitrary: m)
  case Nil
  show ?case by (intro exI [of _ m]) simp
next
  case (Cons r rs)
  show ?case
  proof (cases "derive r e0")
    case None
    from Cons [of m] obtain n where n:
      "fold (\<lambda>r acc. case derive r e0 of None \<Rightarrow> acc | Some v \<Rightarrow> add_field (fst r) v acc) rs (e @ m)
          = e @ n"
      "fst ` set n \<subseteq> fst ` set rs \<union> fst ` set m"
      "\<forall>k. map_of (e @ m) k \<noteq> None \<longrightarrow> map_of (e @ n) k \<noteq> None"
      "\<forall>r \<in> set rs. derive r e0 \<noteq> None \<longrightarrow> map_of (e @ n) (fst r) \<noteq> None"
      by blast
    show ?thesis using None n by (intro exI [of _ n]) auto
  next
    case (Some v)
    from add_field_shape [of "fst r" v e m] obtain m' where m':
      "add_field (fst r) v (e @ m) = e @ m'"
      "fst ` set m' \<subseteq> insert (fst r) (fst ` set m)"
      "map_of (e @ m') (fst r) \<noteq> None"
      by blast
    have mono: "map_of (e @ m) k \<noteq> None \<longrightarrow> map_of (e @ m') k \<noteq> None" for k
      using add_field_shape [of "fst r" v e m k] m'(1) by auto
    from Cons [of m'] obtain n where n:
      "fold (\<lambda>r acc. case derive r e0 of None \<Rightarrow> acc | Some v \<Rightarrow> add_field (fst r) v acc) rs (e @ m')
          = e @ n"
      "fst ` set n \<subseteq> fst ` set rs \<union> fst ` set m'"
      "\<forall>k. map_of (e @ m') k \<noteq> None \<longrightarrow> map_of (e @ n) k \<noteq> None"
      "\<forall>r \<in> set rs. derive r e0 \<noteq> None \<longrightarrow> map_of (e @ n) (fst r) \<noteq> None"
      by blast
    show ?thesis
    proof (intro exI [of _ n] conjI)
      show "fold (\<lambda>r acc. case derive r e0 of None \<Rightarrow> acc | Some v \<Rightarrow> add_field (fst r) v acc) (r # rs) (e @ m)
          = e @ n"
        using Some m'(1) n(1) by simp
      show "fst ` set n \<subseteq> fst ` set (r # rs) \<union> fst ` set m" using n(2) m'(2) by auto
      show "\<forall>k. map_of (e @ m) k \<noteq> None \<longrightarrow> map_of (e @ n) k \<noteq> None"
        using mono n(3) by blast
      show "\<forall>r' \<in> set (r # rs). derive r' e0 \<noteq> None \<longrightarrow> map_of (e @ n) (fst r') \<noteq> None"
        using n(3,4) m'(3) by auto
    qed
  qed
qed

lemma add_legacy_shape:
  "\<exists>n. add_legacy rs e = e @ n \<and> fst ` set n \<subseteq> fst ` set rs \<and>
       (\<forall>r \<in> set rs. derive r e \<noteq> None \<longrightarrow> map_of (e @ n) (fst r) \<noteq> None)"
  using fold_shape [of e rs e "[]"] by (auto simp: add_legacy_def)

lemma fold_fixed:
  assumes "\<forall>r \<in> set rs. derive r e0 \<noteq> None \<longrightarrow> map_of acc (fst r) \<noteq> None"
  shows "fold (\<lambda>r acc. case derive r e0 of None \<Rightarrow> acc | Some v \<Rightarrow> add_field (fst r) v acc) rs acc = acc"
  using assms by (induction rs) (auto simp: add_field_def split: option.splits)

lemma add_legacy_fixed:
  "\<forall>r \<in> set rs. derive r e \<noteq> None \<longrightarrow> map_of e (fst r) \<noteq> None \<Longrightarrow> add_legacy rs e = e"
  by (simp add: add_legacy_def fold_fixed)

lemma map_of_drop_keys: "map_of (drop_keys ks e) c = (if c \<in> set ks then None else map_of e c)"
  by (induction e) (auto simp: drop_keys_def)

lemma drop_keys_idem: "drop_keys ks (drop_keys ks e) = drop_keys ks e"
  by (simp add: drop_keys_def)

lemma map_of_append_new:
  "c \<notin> fst ` set n \<Longrightarrow> map_of (e @ n) c = map_of e c"
proof -
  assume "c \<notin> fst ` set n"
  then have "map_of n c = None" by (simp add: map_of_eq_None_iff)
  then show ?thesis by (simp add: map_add_def split: option.splits)
qed

lemma those_map_None:
  "those (map f xs) = Some vs \<Longrightarrow> \<forall>x \<in> set xs. g x = f x \<or> g x = None \<Longrightarrow>
   those (map g xs) = None \<or> those (map g xs) = Some vs"
proof (induction xs arbitrary: vs)
  case Nil
  then show ?case by simp
next
  case (Cons x xs)
  then obtain v vs' where v: "f x = Some v" "those (map f xs) = Some vs'" "vs = v # vs'"
    by (auto split: option.splits)
  from Cons.IH [OF v(2)] Cons.prems(2)
  have "those (map g xs) = None \<or> those (map g xs) = Some vs'" by simp
  moreover have "g x = Some v \<or> g x = None" using Cons.prems(2) v by auto
  ultimately show ?case using v by auto
qed


lemma derive_after_patch:
  assumes "table_ok t" and "r \<in> set (rules t)" and "fst ` set n \<subseteq> fst ` set (rules t)"
  shows "derive r (e @ n) = derive r e"
proof -
  obtain k sources g where r: "r = (k, sources, g)" by (cases r)
  have "c \<notin> set (legacy_keys t)" if "c \<in> set sources" for c
    using assms(1,2) r that by (auto simp: table_ok_def list_all_iff)
  then have "map_of (e @ n) c = map_of e c" if "c \<in> set sources" for c
  proof -
    have "c \<notin> fst ` set (rules t)" using \<open>\<And>c. c \<in> set sources \<Longrightarrow> c \<notin> set (legacy_keys t)\<close> that
      by (simp add: legacy_keys_def)
    then have "c \<notin> fst ` set n" using assms(3) by blast
    then show ?thesis by (rule map_of_append_new)
  qed
  then have m: "map (map_of (e @ n)) sources = map (map_of e) sources"
    by (intro map_cong [OF refl])
  show ?thesis by (simp only: derive_def r prod.case m)
qed

lemma derive_after_drop:
  assumes "derive r (drop_keys ks e) = Some v"
  shows "derive r e = Some v"
proof -
  obtain k sources g where r: "r = (k, sources, g)" by (cases r)
  from assms obtain vs where vs: "those (map (map_of (drop_keys ks e)) sources) = Some vs" "g vs = Some v"
    by (auto simp: derive_def r split: option.splits)
  have "\<forall>c \<in> set sources. map_of e c = map_of (drop_keys ks e) c \<or> map_of e c = None \<or> c \<in> set ks"
    by (simp add: map_of_drop_keys)
  have all: "\<forall>c \<in> set sources. c \<notin> set ks"
  proof (rule ccontr)
    assume "\<not> (\<forall>c \<in> set sources. c \<notin> set ks)"
    then obtain c where c: "c \<in> set sources" "c \<in> set ks" by blast
    then have "map_of (drop_keys ks e) c = None" by (simp add: map_of_drop_keys)
    then have "None \<in> set (map (map_of (drop_keys ks e)) sources)" using c(1) by force
    then have "those (map (map_of (drop_keys ks e)) sources) = None"
      by (induction sources) (auto split: option.splits)
    then show False using vs by simp
  qed
  then have m: "map (map_of (drop_keys ks e)) sources = map (map_of e) sources"
    by (intro map_cong [OF refl]) (simp add: map_of_drop_keys)
  have "those (map (map_of e) sources) = Some vs" using vs(1) by (simp only: m)
  then show ?thesis using vs(2) by (simp add: derive_def r)
qed

lemma compat_patch_additive: "\<exists>n. compat_patch t e False = e @ n"
  using add_legacy_shape [of "rules t" e] by (auto simp: compat_patch_def)

lemma compat_patch_idem:
  assumes "table_ok t"
  shows "compat_patch t (compat_patch t e d) d = compat_patch t e d"
proof -
  from add_legacy_shape [of "rules t" e] obtain n where n:
    "add_legacy (rules t) e = e @ n" "fst ` set n \<subseteq> fst ` set (rules t)"
    "\<forall>r \<in> set (rules t). derive r e \<noteq> None \<longrightarrow> map_of (e @ n) (fst r) \<noteq> None"
    by blast
  have same: "derive r (e @ n) = derive r e" if "r \<in> set (rules t)" for r
    using derive_after_patch [OF assms that n(2)] .
  show ?thesis
  proof (cases d)
    case False
    have "add_legacy (rules t) (e @ n) = e @ n"
      by (rule add_legacy_fixed) (use same n(3) in auto)
    then show ?thesis using False n(1) by (simp add: compat_patch_def)
  next
    case True
    define e2 where "e2 = drop_keys (incompat_keys t) (e @ n)"
    have "map_of e2 (fst r) \<noteq> None" if r: "r \<in> set (rules t)" and d: "derive r e2 \<noteq> None" for r
    proof -
      from d obtain v where "derive r e2 = Some v" by auto
      then have "derive r (e @ n) = Some v" unfolding e2_def by (rule derive_after_drop)
      then have "map_of (e @ n) (fst r) \<noteq> None" using same [OF r] n(3) r by auto
      moreover have "fst r \<notin> set (incompat_keys t)"
        using assms r by (auto simp: table_ok_def list_all_iff legacy_keys_def)
      ultimately show ?thesis by (simp add: e2_def map_of_drop_keys)
    qed
    then have "add_legacy (rules t) e2 = e2" by (intro add_legacy_fixed) blast
    then have "compat_patch t e2 True = e2"
      by (simp add: compat_patch_def e2_def drop_keys_idem)
    then show ?thesis using True n(1) by (simp add: compat_patch_def e2_def)
  qed
qed


text \<open>
  C6.  For tables as the spec describes them, each of the four patch functions is
  idempotent, with and without \<open>drop_incompat_keys\<close>, and additive when
  \<open>drop_incompat_keys\<close> is not requested: the patched entity starts with the
  original fields, unchanged and in their order, so no original field is removed or
  overwritten.
\<close>

theorem compat_patch_idempotent_additive:
  assumes "tables_ok T"
  shows "compat_media T (compat_media T e d) d = compat_media T e d \<and>
         compat_comment T (compat_comment T e d) d = compat_comment T e d \<and>
         compat_user T (compat_user T e d) d = compat_user T e d \<and>
         compat_list_user T (compat_list_user T e d) d = compat_list_user T e d \<and>
         take (length e) (compat_media T e False) = e \<and>
         take (length e) (compat_comment T e False) = e \<and>
         take (length e) (compat_user T e False) = e \<and>
         take (length e) (compat_list_user T e False) = e"
proof -
  have ok: "table_ok (media_table T)" "table_ok (comment_table T)" "table_ok (user_table T)"
    "table_ok (list_user_table T)"
    using assms by (simp_all add: tables_ok_def)
  have pre: "take (length e) (compat_patch t e False) = e" for t
    using compat_patch_additive [of t e] by auto
  show ?thesis
    unfolding compat_media_def compat_comment_def compat_user_def compat_list_user_def
    using ok by (simp add: compat_patch_idem pre)
qed

lemma ex_tables_ok: "tables_ok ex_tables"
  by (simp add: tables_ok_def table_ok_def ex_tables_def legacy_keys_def)

lemma ex_user_patched:
  "compat_list_user ex_tables ex_user False
     = ex_user @ [(''id'', JStr ''42''), (''profile_picture'', JStr ''http://x/y.jpg'')]"
  by code_simp

lemma ex_user_dropped:
  "compat_list_user ex_tables ex_user True
     = [(''pk'', JInt 42), (''username'', JStr ''someone''),
        (''profile_pic_url'', JStr ''http://x/y.jpg''),
        (''id'', JStr ''42''), (''profile_picture'', JStr ''http://x/y.jpg'')]"
  by code_simp

theorem compat_patch_idempotent_additive_witness:
  "compat_list_user ex_tables
      (ex_user @ [(''id'', JStr ''42''), (''profile_picture'', JStr ''http://x/y.jpg'')]) False
     = ex_user @ [(''id'', JStr ''42''), (''profile_picture'', JStr ''http://x/y.jpg'')] \<and>
   take (length ex_user) (compat_list_user ex_tables ex_user False) = ex_user \<and>
   compat_list_user ex_tables (compat_list_user ex_tables ex_user True) True
     = compat_list_user ex_tables ex_user True"
  using compat_patch_idempotent_additive [OF ex_tables_ok, of ex_user False]
    compat_patch_idempotent_additive [OF ex_tables_ok, of ex_user True]
    ex_user_patched
  by simp

end
